theory Spec2Isabelle
  imports Complex_Main "HOL-Library.Word"
begin

section \<open>Path library (POSIX flavour of Node's \<open>path\<close> module)\<close>

text \<open>
  The handlers of \<^verbatim>\<open>menu.ts\<close> call \<^verbatim>\<open>path.basename\<close>, \<^verbatim>\<open>path.extname\<close>,
  \<^verbatim>\<open>path.parse(p).dir\<close>, \<^verbatim>\<open>path.dirname\<close>, \<^verbatim>\<open>path.join\<close> and \<^verbatim>\<open>path.resolve\<close>.
  The application runs on Linux, so these are the POSIX variants: the separator is
  \<open>/\<close>. Each function below computes what the library function returns on a string.
\<close>

definition is_slash :: "char \<Rightarrow> bool" where
  "is_slash c = (c = CHR ''/'')"

definition path_basename :: "string \<Rightarrow> string" where
  "path_basename p = rev (takeWhile (\<lambda>c. \<not> is_slash c) (dropWhile is_slash (rev p)))"

definition path_extname :: "string \<Rightarrow> string" where
  "path_extname p =
     (let b = path_basename p;
          suf = rev (takeWhile (\<lambda>c. c \<noteq> CHR ''.'') (rev b));
          pre = rev (drop 1 (dropWhile (\<lambda>c. c \<noteq> CHR ''.'') (rev b)))
      in if CHR ''.'' \<notin> set b \<or> pre = [] \<or> b = ''..'' then [] else CHR ''.'' # suf)"

definition path_parse_dir :: "string \<Rightarrow> string" where
  "path_parse_dir p =
     (if p = [] then []
      else
        let isAbsolute = is_slash (hd p);
            rootPart = (if isAbsolute then ''/'' else []);
            body = (if isAbsolute then tl p else p);
            r = dropWhile (\<lambda>c. \<not> is_slash c) (dropWhile is_slash (rev body))
        in if r = [] then rootPart else rootPart @ rev (tl r))"

definition path_dirname :: "string \<Rightarrow> string" where
  "path_dirname p =
     (if p = [] then ''.''
      else
        let hasRoot = is_slash (hd p);
            r = dropWhile (\<lambda>c. \<not> is_slash c) (dropWhile is_slash (rev (tl p)))
        in if r = [] then (if hasRoot then ''/'' else ''.'')
           else if hasRoot \<and> tl r = [] then ''//''
           else hd p # rev (tl r))"

fun split_slash :: "string \<Rightarrow> string list" where
  "split_slash [] = [[]]"
| "split_slash (c # cs) =
     (if is_slash c then [] # split_slash cs
      else (case split_slash cs of
              [] \<Rightarrow> [[c]]
            | s # ss \<Rightarrow> (c # s) # ss))"

fun join_slash :: "string list \<Rightarrow> string" where
  "join_slash [] = []"
| "join_slash [s] = s"
| "join_slash (s # t # ss) = s @ CHR ''/'' # join_slash (t # ss)"

text \<open>
  \<^verbatim>\<open>normalizeString\<close>: the segments between separators are read left to right; an empty
  segment and \<open>.\<close> are skipped, \<open>..\<close> removes the segment before it (or is kept, when
  the path may climb above its start), any other segment is kept. The third argument is
  the stack of segments kept so far, last one first.
\<close>

fun normalizeSegs :: "bool \<Rightarrow> string list \<Rightarrow> string list \<Rightarrow> string list" where
  "normalizeSegs allowAboveRoot [] res = rev res"
| "normalizeSegs allowAboveRoot (s # ss) res =
     (if s = [] \<or> s = ''.'' then normalizeSegs allowAboveRoot ss res
      else if s = ''..'' then
        (if res \<noteq> [] \<and> hd res \<noteq> ''..'' then normalizeSegs allowAboveRoot ss (tl res)
         else if allowAboveRoot then normalizeSegs allowAboveRoot ss (''..'' # res)
         else normalizeSegs allowAboveRoot ss res)
      else normalizeSegs allowAboveRoot ss (s # res))"

definition normalizeString :: "string \<Rightarrow> bool \<Rightarrow> string" where
  "normalizeString p allowAboveRoot = join_slash (normalizeSegs allowAboveRoot (split_slash p) [])"

definition path_normalize :: "string \<Rightarrow> string" where
  "path_normalize p =
     (if p = [] then ''.''
      else
        let isAbsolute = is_slash (hd p);
            trailingSeparator = is_slash (last p);
            q = normalizeString p (\<not> isAbsolute)
        in if q = [] then (if isAbsolute then ''/'' else if trailingSeparator then ''./'' else ''.'')
           else (if isAbsolute then ''/'' else []) @ q @ (if trailingSeparator then ''/'' else []))"

definition path_join :: "string list \<Rightarrow> string" where
  "path_join args =
     (let parts = filter (\<lambda>a. a \<noteq> []) args
      in if parts = [] then ''.'' else path_normalize (join_slash parts))"

text \<open>
  \<^verbatim>\<open>path.resolve\<close> reads its arguments from the right, then the working directory,
  until it has met an absolute one; \<open>resolve_collect\<close> takes them in that order.
\<close>

fun resolve_collect :: "string list \<Rightarrow> string \<Rightarrow> string" where
  "resolve_collect [] acc = acc"
| "resolve_collect (p # ps) acc =
     (if p = [] then resolve_collect ps acc
      else if is_slash (hd p) then p @ CHR ''/'' # acc
      else resolve_collect ps (p @ CHR ''/'' # acc))"

definition path_resolve :: "string \<Rightarrow> string list \<Rightarrow> string" where
  "path_resolve cwd args =
     (let resolvedPath = resolve_collect (rev args @ [cwd]) [];
          resolvedAbsolute = (resolvedPath \<noteq> [] \<and> is_slash (hd resolvedPath));
          q = normalizeString resolvedPath (\<not> resolvedAbsolute)
      in if resolvedAbsolute then CHR ''/'' # q
         else if q \<noteq> [] then q else ''.'')"

section \<open>Values of the program\<close>

text \<open>
  A value produced by \<^verbatim>\<open>JSON.parse\<close>. An object keeps its keys in insertion order.
  A number is the rational it denotes (\<^verbatim>\<open>JSON.parse\<close> yields no \<^verbatim>\<open>NaN\<close>).
\<close>

datatype json =
    JNull
  | JBool bool
  | JNum rat
  | JStr string
  | JArr "json list"
  | JObj "(string \<times> json) list"

text \<open>Truthiness of a property read: \<open>None\<close> is \<^verbatim>\<open>undefined\<close>.\<close>

fun js_truthy :: "json option \<Rightarrow> bool" where
  "js_truthy None = False"
| "js_truthy (Some JNull) = False"
| "js_truthy (Some (JBool b)) = b"
| "js_truthy (Some (JNum n)) = (n \<noteq> 0)"
| "js_truthy (Some (JStr s)) = (s \<noteq> [])"
| "js_truthy (Some (JArr xs)) = True"
| "js_truthy (Some (JObj kvs)) = True"

text \<open>
  \<^verbatim>\<open>typeof v !== "object" || v === null\<close> is false exactly for objects and arrays.
\<close>

fun js_is_object :: "json \<Rightarrow> bool" where
  "js_is_object (JArr xs) = True"
| "js_is_object (JObj kvs) = True"
| "js_is_object v = False"

text \<open>
  Reading a property \<^verbatim>\<open>v.key\<close> of a parsed value, for a key that no prototype defines
  (\<^verbatim>\<open>build\<close>, \<^verbatim>\<open>name\<close>): an own property of an object, \<^verbatim>\<open>undefined\<close> otherwise.
\<close>

fun js_get :: "json \<Rightarrow> string \<Rightarrow> json option" where
  "js_get (JObj kvs) key = map_of kvs key"
| "js_get v key = None"

text \<open>
  The assignment \<^verbatim>\<open>v.key = x\<close>: an object replaces the value of an existing key in
  place and appends a new key. On an array the assignment creates a property that
  \<^verbatim>\<open>JSON.stringify\<close> does not serialise, so the serialised value is the array itself.
\<close>

fun js_set_key :: "(string \<times> json) list \<Rightarrow> string \<Rightarrow> json \<Rightarrow> (string \<times> json) list" where
  "js_set_key [] key x = [(key, x)]"
| "js_set_key ((k, v) # kvs) key x =
     (if k = key then (k, x) # kvs else (k, v) # js_set_key kvs key x)"

fun js_set :: "json \<Rightarrow> string \<Rightarrow> json \<Rightarrow> json" where
  "js_set (JObj kvs) key x = JObj (js_set_key kvs key x)"
| "js_set v key x = v"

text \<open>
  Splicing a value into a template string, \<^verbatim>\<open>`${v}`\<close>, converts it to a string. A
  primitive always converts. An object converts through its \<^verbatim>\<open>toString\<close> property: an
  object made by \<^verbatim>\<open>JSON.parse\<close> inherits a callable one unless it has a key \<^verbatim>\<open>toString\<close>
  of its own, whose value is never callable, and then the conversion throws a
  \<^verbatim>\<open>TypeError\<close> (its \<^verbatim>\<open>valueOf\<close>, inherited or its own, gives no primitive either). An
  array converts by joining the conversions of its elements, \<^verbatim>\<open>null\<close> as the empty
  string.
\<close>

fun js_printable :: "json \<Rightarrow> bool" where
  "js_printable (JArr xs) = list_all js_printable xs"
| "js_printable (JObj kvs) = (map_of kvs ''toString'' = None)"
| "js_printable v = True"

text \<open>The same for a property read, where \<open>None\<close> is \<^verbatim>\<open>undefined\<close>.\<close>

fun js_template_ok :: "json option \<Rightarrow> bool" where
  "js_template_ok None = True"
| "js_template_ok (Some v) = js_printable v"

datatype content = Text string | Binary "8 word list"

record pending_file =
  name :: string
  content :: content

record export_file =
  export_name :: string
  buffer :: "8 word list"

text \<open>
  What the handlers throw: one constructor for each \<^verbatim>\<open>throw\<close> and each rejection of the
  source, and \<open>JsTypeError\<close> for the \<^verbatim>\<open>TypeError\<close> that the runtime throws when a
  template string cannot convert a value.
\<close>

datatype error =
    StatError
  | ReaddirError
  | ManifestNamingError
  | InvalidFileError string
  | ManifestNotStringError
  | ManifestParseError
  | ManifestShapeError
  | ReservedFieldError json
  | NoManifestError
  | InvalidDirectoryError
  | DestinationExistsError
  | MkPathError
  | UnexpectedDuplicateError
  | JsTypeError

text \<open>
  Modelled from the spec: the constant \<^verbatim>\<open>MANIFEST_FILE_NAME\<close> of \<^verbatim>\<open>Const\<close> is not among the
  sources. The spec gives \<^verbatim>\<open>manifest.json\<close> as the fixed name of the manifest, and the
  handler's own error message spells it out: \<^verbatim>\<open>Manifest must be named 'manifest.json'\<close>.
\<close>

definition MANIFEST_FILE_NAME :: string where
  "MANIFEST_FILE_NAME = ''manifest.json''"

section \<open>The extension registry\<close>

text \<open>
  The registry of \<^verbatim>\<open>Main/ExtensionManager\<close> (\<^verbatim>\<open>Ext\<close>), which is not among the sources:
  the spec's ExtensionRegistry is a mapping from an identifier to a manifest path, kept
  in insertion order, that notifies its observers of a change. The notifications are
  counted.
\<close>

record registry =
  records :: "(nat \<times> string) list"
  nextId :: nat
  notifications :: nat

record add_result =
  res_id :: nat
  res_existed :: bool

text \<open>
  Modelled from the spec: \<^verbatim>\<open>Ext.addPath\<close> is not among the sources. By the spec, if the
  path already has a record, \<^verbatim>\<open>addPath\<close> returns its id with \<^verbatim>\<open>existed = true\<close> and
  notifies nobody; otherwise it mints a new id, stores the record, notifies the
  observers and returns \<^verbatim>\<open>existed = false\<close>. The new id is taken from a counter.
\<close>

definition addPath :: "registry \<Rightarrow> string \<Rightarrow> add_result \<times> registry" where
  "addPath r manifestPath =
     (case find (\<lambda>(i, p). p = manifestPath) (records r) of
        Some (i, p) \<Rightarrow> (\<lparr>res_id = i, res_existed = True\<rparr>, r)
      | None \<Rightarrow>
          (\<lparr>res_id = nextId r, res_existed = False\<rparr>,
           r\<lparr>records := records r @ [(nextId r, manifestPath)],
             nextId := Suc (nextId r),
             notifications := Suc (notifications r)\<rparr>))"

definition reg_paths :: "registry \<Rightarrow> string set" where
  "reg_paths r = snd ` set (records r)"

definition reg_ids :: "registry \<Rightarrow> nat set" where
  "reg_ids r = fst ` set (records r)"

text \<open>
  A registry built by \<open>addPath\<close> has one record per path and per id, and every id
  below the counter.
\<close>

definition reg_wf :: "registry \<Rightarrow> bool" where
  "reg_wf r \<longleftrightarrow>
     distinct (map fst (records r)) \<and> distinct (map snd (records r)) \<and>
     list_all (\<lambda>(i, p). i < nextId r) (records r)"

definition empty_registry :: registry where
  "empty_registry = \<lparr>records = [], nextId = 0, notifications = 0\<rparr>"

section \<open>The host: constants, helpers and services the handlers import\<close>

record save_dialog_options =
  title :: "string option"
  defaultPath :: string

record open_dialog_result =
  canceled :: bool
  filePaths :: "string list"

record message_box =
  box_type :: string
  box_title :: string
  box_message :: string
  box_detail :: string

text \<open>
  What the handlers take from modules outside \<^verbatim>\<open>menu.ts\<close> and from the platform is a
  parameter: the allow-list of \<^verbatim>\<open>Const\<close>, \<^verbatim>\<open>sanitizeFileName\<close> of \<^verbatim>\<open>Utils/Common\<close>,
  \<^verbatim>\<open>JSON.parse\<close> (\<open>None\<close> when it throws) and \<^verbatim>\<open>JSON.stringify\<close> with its indentation,
  the working directory, the file system (of any type \<open>'d\<close>; an operation that changes
  it returns whether it succeeded and the disk it leaves), and the answers of the user
  to the dialogs (\<open>None\<close> when a dialog returns nothing).
\<close>

record 'd host =
  FILE_EXTENSION_WHITE_LIST :: "string list"
  sanitizeFileName :: "string \<Rightarrow> string"
  JSON_parse :: "string \<Rightarrow> json option"
  JSON_stringify :: "json \<Rightarrow> nat \<Rightarrow> string"
  cwd :: string
  fs_stat :: "'d \<Rightarrow> string \<Rightarrow> bool option"
  fs_readdir :: "'d \<Rightarrow> string \<Rightarrow> string list option"
  fs_readFile :: "'d \<Rightarrow> string \<Rightarrow> string option"
  access :: "'d \<Rightarrow> string \<Rightarrow> bool"
  mkPath :: "'d \<Rightarrow> string \<Rightarrow> bool \<times> 'd"
  fs_writeFile :: "'d \<Rightarrow> string \<Rightarrow> content \<Rightarrow> bool \<times> 'd"
  dialog_showOpenDialog :: "open_dialog_result option"
  dialogs_showSaveDialog :: "save_dialog_options \<Rightarrow> string option"
  dialogs_showOpenDialog :: "string option \<Rightarrow> string list option"

record settings =
  lastSavedPluginDir :: "string option"
  lastExportDir :: "string option"
  exportDir :: "string option"

record 'd world =
  disk :: 'd
  registry :: registry
  app_settings :: settings
  logged :: "(string \<times> json option) list"
  messageBoxes :: "message_box list"

section \<open>Handler \<^verbatim>\<open>createMultipleNewLocalFileExtensions\<close>\<close>

text \<open>
  The calls of \<^verbatim>\<open>processEntry\<close> append to the two arrays of the handler and change the
  registry. \<^verbatim>\<open>Promise.all\<close> starts every call; a call that rejects makes the joint wait
  reject but stops none of the others, so every call runs to its end. The model runs
  the calls in list order and keeps the first rejection in \<open>failure\<close>.
\<close>

record scan =
  reg :: registry
  added :: "nat list"
  existed :: "nat list"
  failure :: "error option"

definition reject :: "error \<Rightarrow> scan \<Rightarrow> scan" where
  "reject e st = (case failure st of None \<Rightarrow> st\<lparr>failure := Some e\<rparr> | Some e' \<Rightarrow> st)"

text \<open>\<^verbatim>\<open>name[0] !== "."\<close> holds of the empty name too.\<close>

fun not_hidden :: "string \<Rightarrow> bool" where
  "not_hidden [] = True"
| "not_hidden (c # cs) = (c \<noteq> CHR ''.'')"

function processEntry ::
  "'d host \<Rightarrow> 'd \<Rightarrow> string \<Rightarrow> int \<Rightarrow> bool \<Rightarrow> scan \<Rightarrow> scan" where
  "processEntry h d entryPath depth topLevel st =
     (case fs_stat h d entryPath of
        None \<Rightarrow> reject StatError st
      | Some isDirectory \<Rightarrow>
          if isDirectory \<and> depth > 0 then
            (case fs_readdir h d entryPath of
               None \<Rightarrow> reject ReaddirError st
             | Some fileNames \<Rightarrow>
                 fold (\<lambda>name. processEntry h d (path_resolve (cwd h) [entryPath, name])
                                 (depth - 1) False)
                      (filter not_hidden fileNames) st)
          else if path_basename entryPath = MANIFEST_FILE_NAME then
            (case addPath (reg st) entryPath of
               (res, reg') \<Rightarrow>
                 if res_existed res then st\<lparr>reg := reg', existed := existed st @ [res_id res]\<rparr>
                 else st\<lparr>reg := reg', added := added st @ [res_id res]\<rparr>)
          else if topLevel then reject ManifestNamingError st
          else st)"
  by pat_completeness auto
termination
  by (relation "measure (\<lambda>(h, d, entryPath, depth, topLevel, st). nat depth)") auto

text \<open>
  The second branch of \<^verbatim>\<open>processEntry\<close> on its own: hand a path to the registry and push
  the id it returns on one of the two arrays.
\<close>

definition register :: "string \<Rightarrow> scan \<Rightarrow> scan" where
  "register p st =
     (case addPath (reg st) p of
        (res, reg') \<Rightarrow>
          if res_existed res then st\<lparr>reg := reg', existed := existed st @ [res_id res]\<rparr>
          else st\<lparr>reg := reg', added := added st @ [res_id res]\<rparr>)"

text \<open>
  The paths that a call of \<^verbatim>\<open>processEntry\<close> hands to the registry, in the order of
  the calls: the same traversal, without the registry.
\<close>

function discovered :: "'d host \<Rightarrow> 'd \<Rightarrow> string \<Rightarrow> int \<Rightarrow> string list" where
  "discovered h d entryPath depth =
     (case fs_stat h d entryPath of
        None \<Rightarrow> []
      | Some isDirectory \<Rightarrow>
          if isDirectory \<and> depth > 0 then
            (case fs_readdir h d entryPath of
               None \<Rightarrow> []
             | Some fileNames \<Rightarrow>
                 concat (map (\<lambda>name. discovered h d (path_resolve (cwd h) [entryPath, name])
                                        (depth - 1))
                             (filter not_hidden fileNames)))
          else if path_basename entryPath = MANIFEST_FILE_NAME then [entryPath]
          else [])"
  by pat_completeness auto
termination
  by (relation "measure (\<lambda>(h, d, entryPath, depth). nat depth)") auto

text \<open>
  An absolute, normalised path, as a file dialog returns it, is given by its components:
  \<open>/\<close> for none, otherwise each component after a separator. A component is a non-empty
  name without separator, other than \<open>.\<close> and \<open>..\<close>; \<^verbatim>\<open>readdir\<close> lists such names.
\<close>

definition proper :: "string \<Rightarrow> bool" where
  "proper n \<longleftrightarrow> n \<noteq> [] \<and> CHR ''/'' \<notin> set n \<and> n \<noteq> ''.'' \<and> n \<noteq> ''..''"

definition abs_path :: "string list \<Rightarrow> string" where
  "abs_path comps = (if comps = [] then ''/'' else concat (map ((#) CHR ''/'') comps))"

definition listings_proper :: "'d host \<Rightarrow> 'd \<Rightarrow> bool" where
  "listings_proper h d \<longleftrightarrow>
     (\<forall>p ns. fs_readdir h d p = Some ns \<longrightarrow> (\<forall>n \<in> set ns. proper n))"

definition listings_distinct :: "'d host \<Rightarrow> 'd \<Rightarrow> bool" where
  "listings_distinct h d \<longleftrightarrow> (\<forall>p ns. fs_readdir h d p = Some ns \<longrightarrow> distinct ns)"

text \<open>
  A chain of directory entries below a root: every name is listed in the directory
  reached by the names before it, is not hidden, and every entry on the way but the last
  is a directory that can be listed.
\<close>

fun chain :: "'d host \<Rightarrow> 'd \<Rightarrow> string list \<Rightarrow> string list \<Rightarrow> bool" where
  "chain h d comps [] = True"
| "chain h d comps (n # ns) =
     (fs_stat h d (abs_path comps) = Some True \<and>
      (case fs_readdir h d (abs_path comps) of
         None \<Rightarrow> False
       | Some listing \<Rightarrow> n \<in> set listing) \<and>
      not_hidden n \<and> proper n \<and>
      chain h d (comps @ [n]) ns)"

record import_result =
  result_added :: "nat list"
  result_existed :: "nat list"

definition createMultipleNewLocalFileExtensions ::
  "'d host \<Rightarrow> int \<Rightarrow> 'd world \<Rightarrow> (error + import_result) \<times> 'd world" where
  "createMultipleNewLocalFileExtensions h depth w =
     (case dialog_showOpenDialog h of
        None \<Rightarrow> (Inr \<lparr>result_added = [], result_existed = []\<rparr>, w)
      | Some dialogResult \<Rightarrow>
          if canceled dialogResult then (Inr \<lparr>result_added = [], result_existed = []\<rparr>, w)
          else
            let st = fold (\<lambda>name. processEntry h (disk w) name depth True)
                       (filePaths dialogResult)
                       \<lparr>reg = registry w, added = [], existed = [], failure = None\<rparr>
            in (case failure st of
                  Some e \<Rightarrow> (Inl e, w\<lparr>registry := reg st\<rparr>)
                | None \<Rightarrow>
                    (Inr \<lparr>result_added = added st, result_existed = existed st\<rparr>,
                     w\<lparr>registry := reg st\<rparr>)))"

section \<open>Handler \<^verbatim>\<open>writeNewExtensionToDisk\<close>\<close>

text \<open>
  The character class \<^verbatim>\<open>\w\<close> of the shape pattern.
\<close>

definition is_word_char :: "char \<Rightarrow> bool" where
  "is_word_char c \<longleftrightarrow>
     c \<in> set ''abcdefghijklmnopqrstuvwxyzABCDEFGHIJKLMNOPQRSTUVWXYZ0123456789_''"

text \<open>
  \<^verbatim>\<open>/^\w+(?:\.\w+)*\.\w+/.test(name)\<close>. The pattern is anchored at the start only. Its
  first \<^verbatim>\<open>\w+\<close> must take the whole leading run of word characters, since what follows
  it must be a dot; after that run the pattern needs one dot and one word character,
  and whatever comes later is not looked at.
\<close>

definition shape_test :: "string \<Rightarrow> bool" where
  "shape_test n =
     (takeWhile is_word_char n \<noteq> [] \<and>
      (case dropWhile is_word_char n of
         c1 # c2 # rest \<Rightarrow> c1 = CHR ''.'' \<and> is_word_char c2
       | _ \<Rightarrow> False))"

definition name_rejected :: "'d host \<Rightarrow> string \<Rightarrow> bool" where
  "name_rejected h n \<longleftrightarrow>
     path_extname n \<notin> set (FILE_EXTENSION_WHITE_LIST h) \<or>
     \<not> shape_test n \<or>
     n \<noteq> sanitizeFileName h n"

text \<open>
  The first loop of the handler. Its two variables \<^verbatim>\<open>manifest\<close> and \<^verbatim>\<open>manifestFile\<close> are
  assigned together; \<^verbatim>\<open>manifestFile\<close> refers to an element of \<^verbatim>\<open>data.files\<close>, here its
  index. \<open>None\<close> is their initial \<^verbatim>\<open>null\<close>.
\<close>

fun validateFiles ::
  "'d host \<Rightarrow> pending_file list \<Rightarrow> nat \<Rightarrow> (json \<times> nat) option \<Rightarrow> error + (json \<times> nat) option" where
  "validateFiles h [] i acc = Inr acc"
| "validateFiles h (file # rest) i acc =
     (if name_rejected h (name file) then Inl (InvalidFileError (name file))
      else if name file = MANIFEST_FILE_NAME then
        (case content file of
           Binary b \<Rightarrow> Inl ManifestNotStringError
         | Text s \<Rightarrow>
             (case JSON_parse h s of
                None \<Rightarrow> Inl ManifestParseError
              | Some manifest \<Rightarrow>
                  if \<not> js_is_object manifest then Inl ManifestShapeError
                  else if js_truthy (js_get manifest ''build'')
                  then (if js_template_ok (js_get manifest ''build'')
                        then Inl (ReservedFieldError (the (js_get manifest ''build'')))
                        else Inl JsTypeError)
                  else validateFiles h rest (Suc i) (Some (manifest, i))))
      else validateFiles h rest (Suc i) acc)"

text \<open>
  A file that the loop passes: its name is accepted and, if it is the manifest, its
  content is a string that parses to an object or array without a truthy \<^verbatim>\<open>build\<close>.
\<close>

definition file_ok :: "'d host \<Rightarrow> pending_file \<Rightarrow> bool" where
  "file_ok h f \<longleftrightarrow>
     \<not> name_rejected h (name f) \<and>
     (name f = MANIFEST_FILE_NAME \<longrightarrow>
        (case content f of
           Binary b \<Rightarrow> False
         | Text s \<Rightarrow>
             (case JSON_parse h s of
                None \<Rightarrow> False
              | Some manifest \<Rightarrow>
                  js_is_object manifest \<and> \<not> js_truthy (js_get manifest ''build''))))"

text \<open>A setting read in a condition: \<^verbatim>\<open>undefined\<close> and the empty string are falsy.\<close>

fun str_truthy :: "string option \<Rightarrow> bool" where
  "str_truthy None = False"
| "str_truthy (Some s) = (s \<noteq> [])"

text \<open>A setting spliced into a template string.\<close>

fun js_template :: "string option \<Rightarrow> string" where
  "js_template None = ''undefined''"
| "js_template (Some s) = s"

text \<open>
  One write of the second loop: a rejected \<^verbatim>\<open>writeFile\<close> is caught and logged (the path
  and the manifest's name), and the handler goes on. The message of the log entry is a
  template string over \<^verbatim>\<open>manifest.name\<close>: when that value cannot be converted, the
  \<^verbatim>\<open>catch\<close> callback throws before it logs, the promise of this write is rejected and
  so is \<^verbatim>\<open>Promise.all\<close>; the flag beside the world records it. The writes are issued in
  list order, all of them before the first one settles, and the model completes them
  in that order.
\<close>

definition writeOne ::
  "'d host \<Rightarrow> string \<Rightarrow> json option \<Rightarrow> pending_file \<Rightarrow> 'd world \<times> bool \<Rightarrow> 'd world \<times> bool" where
  "writeOne h saveDir manifestName file st =
     (let w = fst st;
          filePath = path_join [saveDir, name file]
      in case fs_writeFile h (disk w) filePath (content file) of
           (ok, d') \<Rightarrow>
             if ok then (w\<lparr>disk := d'\<rparr>, snd st)
             else if js_template_ok manifestName
             then (w\<lparr>disk := d', logged := logged w @ [(filePath, manifestName)]\<rparr>, snd st)
             else (w\<lparr>disk := d'\<rparr>, True))"

text \<open>
  The handler returns an id, or \<^verbatim>\<open>undefined\<close> (\<open>Inr None\<close>) when the save dialog gave
  nothing, or it throws.
\<close>

definition writeNewExtensionToDisk ::
  "'d host \<Rightarrow> pending_file list \<Rightarrow> string \<Rightarrow> 'd world \<Rightarrow> (error + nat option) \<times> 'd world" where
  "writeNewExtensionToDisk h files dirName w =
     (case validateFiles h files 0 None of
        Inl e \<Rightarrow> (Inl e, w)
      | Inr None \<Rightarrow> (Inl NoManifestError, w)
      | Inr (Some (manifest, manifestFile)) \<Rightarrow>
          let dirName' = sanitizeFileName h dirName;
              lastDir = lastSavedPluginDir (app_settings w);
              dir = (if str_truthy lastDir then js_template lastDir @ ''/'' @ dirName' else dirName');
              saveDir = dialogs_showSaveDialog h
                \<lparr>title = Some (if js_truthy (js_get manifest ''name'')
                                then ''Choose plugin directory location''
                                else ''Choose plugin name and directory location''),
                 defaultPath = dir\<rparr>
          in if \<not> str_truthy saveDir then (Inr None, w)
             else
               let saveDir = the saveDir;
                   basename = path_basename saveDir;
                   w1 = w\<lparr>app_settings :=
                           (app_settings w)\<lparr>lastSavedPluginDir := Some (path_parse_dir saveDir)\<rparr>\<rparr>
               in if basename = [] then (Inl InvalidDirectoryError, w1)
                  else
                    let manifest' =
                          (if \<not> js_truthy (js_get manifest ''name'')
                           then js_set manifest ''name'' (JStr basename) else manifest);
                        files' =
                          (if \<not> js_truthy (js_get manifest ''name'')
                           then files[manifestFile :=
                                  (files ! manifestFile)
                                    \<lparr>content := Text (JSON_stringify h manifest' 2)\<rparr>]
                           else files);
                        manifestName =
                          (if \<not> js_truthy (js_get manifest ''name'')
                           then Some (JStr basename) else js_get manifest ''name'')
                    in if access h (disk w1) saveDir then (Inl DestinationExistsError, w1)
                       else
                         (case mkPath h (disk w1) saveDir of
                            (ok, d2) \<Rightarrow>
                              if \<not> ok then (Inl MkPathError, w1\<lparr>disk := d2\<rparr>)
                              else
                                let written = fold (writeOne h saveDir manifestName)
                                                files' (w1\<lparr>disk := d2\<rparr>, False);
                                    w3 = fst written
                                in if snd written then (Inl JsTypeError, w3)
                                   else
                                     (case addPath (registry w3)
                                             (path_join [saveDir, MANIFEST_FILE_NAME]) of
                                        (res, reg') \<Rightarrow>
                                          if res_existed res
                                          then (Inl UnexpectedDuplicateError, w3\<lparr>registry := reg'\<rparr>)
                                          else (Inr (Some (res_id res)), w3\<lparr>registry := reg'\<rparr>))))"

text \<open>
  Modelled from the spec: \<^verbatim>\<open>Ext.getPath\<close> is not among the sources. By the spec it
  returns the path stored for an id and fails when the id is unknown.
\<close>

definition getPath :: "registry \<Rightarrow> nat \<Rightarrow> string option" where
  "getPath r i = map_of (records r) i"

text \<open>
  Modelled from the spec: \<^verbatim>\<open>Ext.loadExtensionManifest\<close> is not among the sources. The
  spec's \<^verbatim>\<open>loadManifest(id)\<close> reads and parses the manifest at the path stored for the id,
  from the disk as it is, and fails when the id is unknown, the file cannot be read or
  its text is not JSON.
\<close>

definition loadExtensionManifest :: "'d host \<Rightarrow> 'd world \<Rightarrow> nat \<Rightarrow> json option" where
  "loadExtensionManifest h w i =
     (case getPath (registry w) i of
        None \<Rightarrow> None
      | Some p \<Rightarrow>
          (case fs_readFile h (disk w) p of
             None \<Rightarrow> None
           | Some s \<Rightarrow> JSON_parse h s))"

section \<open>Handler \<^verbatim>\<open>writeFiles\<close>\<close>

definition export_failed_box :: "string \<Rightarrow> message_box" where
  \<open>export_failed_box n =
     \<lparr>box_type = ''error'',
      box_title = ''Export Failed'',
      box_message = ''Saving file failed'',
      box_detail = ''"'' @ n @ ''" could not be saved. Remaining files will not be saved.''\<rparr>\<close>

text \<open>
  The loop over the files. \<^verbatim>\<open>mkPath\<close> is awaited outside the \<^verbatim>\<open>try\<close>: when it rejects,
  the handler rejects. A rejected \<^verbatim>\<open>writeFile\<close> is caught: the message box is shown and
  the loop goes on with the next file.
\<close>

fun exportLoop :: "'d host \<Rightarrow> string \<Rightarrow> export_file list \<Rightarrow> 'd world \<Rightarrow> error option \<times> 'd world" where
  "exportLoop h directoryPath [] w = (None, w)"
| "exportLoop h directoryPath (file # rest) w =
     (let outputPath = path_join [directoryPath, export_name file]
      in case mkPath h (disk w) (path_dirname outputPath) of
           (ok, d1) \<Rightarrow>
             if \<not> ok then (Some MkPathError, w\<lparr>disk := d1\<rparr>)
             else
               (case fs_writeFile h d1 outputPath (Binary (buffer file)) of
                  (written, d2) \<Rightarrow>
                    if written then exportLoop h directoryPath rest (w\<lparr>disk := d2\<rparr>)
                    else exportLoop h directoryPath rest
                           (w\<lparr>disk := d2,
                              messageBoxes := messageBoxes w @ [export_failed_box (export_name file)]\<rparr>)))"

definition writeFiles :: "'d host \<Rightarrow> export_file list \<Rightarrow> 'd world \<Rightarrow> error option \<times> 'd world" where
  "writeFiles h files w =
     (if files = [] then (None, w)
      else
        let lastDir = (if str_truthy (lastExportDir (app_settings w))
                       then lastExportDir (app_settings w) else exportDir (app_settings w))
        in if length files = 1 \<and> CHR ''/'' \<notin> set (export_name (files ! 0)) then
             (let originalFileName = export_name (files ! 0);
                  savePath = dialogs_showSaveDialog h
                    \<lparr>title = None,
                     defaultPath = js_template lastDir @ ''/'' @ path_basename originalFileName\<rparr>
              in if str_truthy savePath then
                   (let savePath = the savePath;
                        directoryPath = path_dirname savePath;
                        newName = path_basename savePath;
                        newName' = (if path_extname newName = []
                                    then newName @ path_extname originalFileName else newName);
                        files' = files[0 := (files ! 0)\<lparr>export_name := newName'\<rparr>];
                        w1 = w\<lparr>app_settings :=
                                (app_settings w)\<lparr>lastExportDir := Some (path_parse_dir savePath)\<rparr>\<rparr>
                    in if directoryPath = [] then (None, w1)
                       else exportLoop h directoryPath files' w1)
                 else (None, w))
           else
             (case dialogs_showOpenDialog h lastDir of
                None \<Rightarrow> (None, w)
              | Some directories \<Rightarrow>
                  if length directories \<noteq> 1 then (None, w)
                  else
                    let directoryPath = directories ! 0;
                        w1 = w\<lparr>app_settings :=
                                (app_settings w)\<lparr>lastExportDir := Some directoryPath\<rparr>\<rparr>
                    in if directoryPath = [] then (None, w1)
                       else exportLoop h directoryPath files w1))"

section \<open>An example host\<close>

text \<open>
  A small disk: a table from paths to nodes, a directory with its listing, and the list
  of the paths that \<^verbatim>\<open>writeFile\<close> was called on. A file named \<open>locked.png\<close> cannot be
  written.
\<close>

datatype node = DirNode "string list" | FileNode content

fun node_is_dir :: "node \<Rightarrow> bool" where
  "node_is_dir (DirNode ns) = True"
| "node_is_dir (FileNode c) = False"

record exdisk =
  nodes :: "(string \<times> node) list"
  attempts :: "string list"

definition ex_stat :: "exdisk \<Rightarrow> string \<Rightarrow> bool option" where
  "ex_stat d p = map_option node_is_dir (map_of (nodes d) p)"

definition ex_readdir :: "exdisk \<Rightarrow> string \<Rightarrow> string list option" where
  "ex_readdir d p = (case map_of (nodes d) p of Some (DirNode ns) \<Rightarrow> Some ns | _ \<Rightarrow> None)"

definition ex_readFile :: "exdisk \<Rightarrow> string \<Rightarrow> string option" where
  "ex_readFile d p = (case map_of (nodes d) p of Some (FileNode (Text s)) \<Rightarrow> Some s | _ \<Rightarrow> None)"

definition ex_access :: "exdisk \<Rightarrow> string \<Rightarrow> bool" where
  "ex_access d p = (map_of (nodes d) p \<noteq> None)"

definition ex_mkPath :: "exdisk \<Rightarrow> string \<Rightarrow> bool \<times> exdisk" where
  "ex_mkPath d p =
     (if map_of (nodes d) p = None then (True, d\<lparr>nodes := (p, DirNode []) # nodes d\<rparr>)
      else (True, d))"

definition ex_writeFile :: "exdisk \<Rightarrow> string \<Rightarrow> content \<Rightarrow> bool \<times> exdisk" where
  "ex_writeFile d p c =
     (if path_basename p = ''locked.png'' then (False, d\<lparr>attempts := attempts d @ [p]\<rparr>)
      else (True, d\<lparr>nodes := (p, FileNode c) # nodes d, attempts := attempts d @ [p]\<rparr>))"

text \<open>
  \<^verbatim>\<open>JSON.parse\<close> and \<^verbatim>\<open>JSON.stringify\<close>, restricted to the texts and the values that occur
  in the examples: each entry is what the function returns on it. Any other text is
  taken as malformed, any other value is printed as the empty text.
\<close>

definition text_named :: string where
  \<open>text_named = ''{'' @ [CHR 0x0A] @ ''  "name": "myplug"'' @ [CHR 0x0A] @ ''}''\<close>

definition text_build_named :: string where
  \<open>text_build_named =
     ''{'' @ [CHR 0x0A] @ ''  "build": false,'' @ [CHR 0x0A] @ ''  "name": "myplug"'' @ [CHR 0x0A] @ ''}''\<close>

definition ex_parse :: "string \<Rightarrow> json option" where
  \<open>ex_parse s =
     map_of
       [(''{}'', JObj []),
        (''[]'', JArr []),
        (''{"build":"x"}'', JObj [(''build'', JStr ''x'')]),
        (''{"build":false}'', JObj [(''build'', JBool False)]),
        (''"x"'', JStr ''x''),
        (''{"build":{"toString":1}}'', JObj [(''build'', JObj [(''toString'', JNum 1)])]),
        (text_named, JObj [(''name'', JStr ''myplug'')]),
        (text_build_named, JObj [(''build'', JBool False), (''name'', JStr ''myplug'')])] s\<close>

definition ex_stringify :: "json \<Rightarrow> nat \<Rightarrow> string" where
  "ex_stringify v indent =
     (if indent = 2
      then (case map_of
                   [(JArr [], ''[]''),
                    (JObj [(''name'', JStr ''myplug'')], text_named),
                    (JObj [(''build'', JBool False), (''name'', JStr ''myplug'')], text_build_named)] v of
              Some t \<Rightarrow> t
            | None \<Rightarrow> [])
      else [])"

definition ex_sanitize :: "string \<Rightarrow> string" where
  "ex_sanitize s =
     map (\<lambda>c. if is_word_char c \<or> c = CHR ''.'' \<or> c = CHR ''-'' then c else CHR ''_'') s"

definition example_host ::
  "open_dialog_result option \<Rightarrow> string option \<Rightarrow> string list option \<Rightarrow> exdisk host" where
  "example_host picked saveAnswer directories =
     \<lparr>FILE_EXTENSION_WHITE_LIST = [''.json'', ''.js'', ''.html'', ''.css''],
      sanitizeFileName = ex_sanitize,
      JSON_parse = ex_parse,
      JSON_stringify = ex_stringify,
      cwd = ''/home/user'',
      fs_stat = ex_stat,
      fs_readdir = ex_readdir,
      fs_readFile = ex_readFile,
      access = ex_access,
      mkPath = ex_mkPath,
      fs_writeFile = ex_writeFile,
      dialog_showOpenDialog = picked,
      dialogs_showSaveDialog = (\<lambda>options. saveAnswer),
      dialogs_showOpenDialog = (\<lambda>lastDir. directories)\<rparr>"

definition example_disk :: exdisk where
  "example_disk =
     \<lparr>nodes =
        [(''/plugins'', DirNode [''a'', ''b'', ''.git'']),
         (''/plugins/a'', DirNode [''manifest.json'', ''code.js'']),
         (''/plugins/a/manifest.json'', FileNode (Text ''{}'')),
         (''/plugins/a/code.js'', FileNode (Text [])),
         (''/plugins/b'', DirNode [''x'']),
         (''/plugins/b/x'', DirNode [''manifest.json'']),
         (''/plugins/b/x/manifest.json'', FileNode (Text ''{}'')),
         (''/plugins/.git'', DirNode [''manifest.json'']),
         (''/plugins/.git/manifest.json'', FileNode (Text ''{}'')),
         (''/out'', DirNode [])],
      attempts = []\<rparr>"

definition example_world :: "exdisk world" where
  "example_world =
     \<lparr>disk = example_disk,
      registry = empty_registry,
      app_settings = \<lparr>lastSavedPluginDir = None, lastExportDir = None, exportDir = None\<rparr>,
      logged = [],
      messageBoxes = []\<rparr>"

definition picked :: "string list \<Rightarrow> open_dialog_result option" where
  "picked ps = Some \<lparr>canceled = False, filePaths = ps\<rparr>"

text \<open>Files of the examples.\<close>

definition manifest_file :: "string \<Rightarrow> pending_file" where
  "manifest_file s = \<lparr>name = ''manifest.json'', content = Text s\<rparr>"

definition code_file :: pending_file where
  "code_file = \<lparr>name = ''code.js'', content = Text ''x''\<rparr>"

definition bad_file :: pending_file where
  "bad_file = \<lparr>name = ''bad name.js'', content = Text []\<rparr>"

definition export_batch :: "export_file list" where
  "export_batch =
     [\<lparr>export_name = ''locked.png'', buffer = [1, 2]\<rparr>, \<lparr>export_name = ''b.png'', buffer = [3]\<rparr>]"

section \<open>Evaluation rules for the scan\<close>

declare processEntry.simps [simp del]
declare discovered.simps [simp del]

lemma reject_fields [simp]:
  "reg (reject e st) = reg st" "added (reject e st) = added st" "existed (reject e st) = existed st"
  by (simp_all add: reject_def split: option.splits)


lemma register_failure [simp]: "failure (register p st) = failure st"
  by (simp add: register_def split: prod.splits)

lemma processEntry_register:
  "processEntry h d entryPath depth topLevel st =
     (case fs_stat h d entryPath of
        None \<Rightarrow> reject StatError st
      | Some isDirectory \<Rightarrow>
          if isDirectory \<and> depth > 0 then
            (case fs_readdir h d entryPath of
               None \<Rightarrow> reject ReaddirError st
             | Some fileNames \<Rightarrow>
                 fold (\<lambda>name. processEntry h d (path_resolve (cwd h) [entryPath, name])
                                 (depth - 1) False)
                      (filter not_hidden fileNames) st)
          else if path_basename entryPath = MANIFEST_FILE_NAME then register entryPath st
          else if topLevel then reject ManifestNamingError st
          else st)"
  by (subst processEntry.simps) (simp add: register_def split: option.splits)






section \<open>Properties of the path library\<close>

lemma split_slash_append_sep:
  "CHR ''/'' \<notin> set c \<Longrightarrow> split_slash z = [] # t \<Longrightarrow> split_slash (c @ z) = c # t"
  by (induction c) (auto simp: is_slash_def)

lemma split_slash_comps:
  "(\<forall>c \<in> set comps. CHR ''/'' \<notin> set c) \<Longrightarrow>
   split_slash (concat (map ((#) CHR ''/'') comps) @ CHR ''/'' # rest) = [] # comps @ split_slash rest"
proof (induction comps)
  case Nil
  then show ?case by (simp add: is_slash_def)
next
  case (Cons c cs)
  then have "split_slash (c @ concat (map ((#) CHR ''/'') cs) @ CHR ''/'' # rest) = c # cs @ split_slash rest"
    by (intro split_slash_append_sep) auto
  then show ?case by (simp add: is_slash_def)
qed

lemma split_slash_noslash: "CHR ''/'' \<notin> set c \<Longrightarrow> split_slash c = [c]"
  using split_slash_append_sep[of c "[]" "[]"] by simp

lemma split_slash_abs_path:
  assumes "\<forall>c \<in> set comps. proper c" "comps \<noteq> []"
  shows "split_slash (abs_path comps) = [] # comps"
proof -
  obtain cs c where comps: "comps = cs @ [c]"
    using assms(2) by (cases comps rule: rev_cases) auto
  have "split_slash (concat (map ((#) CHR ''/'') cs) @ CHR ''/'' # c) = [] # cs @ split_slash c"
    using assms(1) comps by (intro split_slash_comps) (auto simp: proper_def)
  moreover have "split_slash c = [c]"
    using assms(1) comps by (intro split_slash_noslash) (auto simp: proper_def)
  ultimately show ?thesis using comps by (simp add: abs_path_def)
qed

lemma split_slash_root: "split_slash ''/'' = [[], []]"
  by (simp add: is_slash_def)

lemma abs_path_inject:
  assumes "\<forall>c \<in> set cs. proper c" "\<forall>c \<in> set ds. proper c" "abs_path cs = abs_path ds"
  shows "cs = ds"
proof -
  have eq: "split_slash (abs_path cs) = split_slash (abs_path ds)"
    using assms(3) by (rule arg_cong)
  have nil: "abs_path [] = ''/''" by (simp add: abs_path_def)
  show ?thesis
  proof (cases "cs = []")
    case True
    show ?thesis
    proof (cases "ds = []")
      case False
      have "[[], []] = [] # ds"
        using eq unfolding True nil split_slash_root split_slash_abs_path[OF assms(2) False] .
      then have "[] \<in> set ds" by auto
      with assms(2) show ?thesis by (auto simp: proper_def)
    qed (use True in simp)
  next
    case False
    show ?thesis
    proof (cases "ds = []")
      case True
      have "[] # cs = [[], []]"
        using eq unfolding True nil split_slash_root split_slash_abs_path[OF assms(1) False] .
      then have "[] \<in> set cs" by auto
      with assms(1) show ?thesis by (auto simp: proper_def)
    next
      case dne: False
      have "[] # cs = [] # ds"
        using eq unfolding split_slash_abs_path[OF assms(1) False] split_slash_abs_path[OF assms(2) dne] .
      then show ?thesis by simp
    qed
  qed
qed

lemma normalizeSegs_proper:
  "(\<forall>s \<in> set segs. s = [] \<or> proper s) \<Longrightarrow>
   normalizeSegs a segs res = rev res @ filter (\<lambda>s. s \<noteq> []) segs"
  by (induction segs arbitrary: res) (auto simp: proper_def)

lemma join_slash_comps:
  "comps \<noteq> [] \<Longrightarrow> CHR ''/'' # join_slash comps = concat (map ((#) CHR ''/'') comps)"
  by (induction comps rule: join_slash.induct) auto

lemma path_resolve_abs_path:
  assumes "\<forall>c \<in> set comps. proper c" "proper n"
  shows "path_resolve cw [abs_path comps, n] = abs_path (comps @ [n])"
proof -
  have n: "n \<noteq> []" "\<not> is_slash (hd n)" "CHR ''/'' \<notin> set n"
    using assms(2) by (cases n; auto simp: proper_def is_slash_def)+
  have a: "abs_path comps \<noteq> []" "is_slash (hd (abs_path comps))"
    by (cases comps; simp add: abs_path_def is_slash_def)+
  have collect: "resolve_collect (rev [abs_path comps, n] @ [cw]) [] = abs_path comps @ CHR ''/'' # n @ ''/''"
    using n a by simp
  have tail: "split_slash (n @ ''/'') = [n, []]"
    using n(3) by (intro split_slash_append_sep) (auto simp: is_slash_def)
  have segs: "filter (\<lambda>s. s \<noteq> []) (split_slash (abs_path comps @ CHR ''/'' # n @ ''/'')) = comps @ [n]"
  proof (cases "comps = []")
    case True
    then show ?thesis using tail n by (simp add: abs_path_def is_slash_def)
  next
    case False
    have "split_slash (concat (map ((#) CHR ''/'') comps) @ CHR ''/'' # n @ ''/'') = [] # comps @ split_slash (n @ ''/'')"
      using assms(1) by (intro split_slash_comps) (auto simp: proper_def)
    moreover have "filter (\<lambda>s. s \<noteq> []) comps = comps"
      using assms(1) by (auto simp: proper_def filter_id_conv)
    ultimately show ?thesis using False tail n by (simp add: abs_path_def)
  qed
  have allp: "\<forall>s \<in> set (split_slash (abs_path comps @ CHR ''/'' # n @ ''/'')). s = [] \<or> proper s"
  proof
    fix s assume s: "s \<in> set (split_slash (abs_path comps @ CHR ''/'' # n @ ''/''))"
    show "s = [] \<or> proper s"
    proof (cases "s = []")
      case False
      with s have "s \<in> set (filter (\<lambda>s. s \<noteq> []) (split_slash (abs_path comps @ CHR ''/'' # n @ ''/'')))" by simp
      with segs assms show ?thesis by auto
    qed simp
  qed
  have "normalizeString (abs_path comps @ CHR ''/'' # n @ ''/'') False = join_slash (comps @ [n])"
    unfolding normalizeString_def by (simp add: normalizeSegs_proper[OF allp] segs)
  then show ?thesis
    unfolding path_resolve_def collect Let_def
    using a join_slash_comps[of "comps @ [n]"] by (simp add: abs_path_def)
qed

lemma path_basename_abs_path:
  assumes "\<forall>c \<in> set comps. proper c"
  shows "path_basename (abs_path comps) = (if comps = [] then [] else last comps)"
proof (cases comps rule: rev_cases)
  case Nil
  then show ?thesis by (simp add: abs_path_def path_basename_def is_slash_def)
next
  case (snoc cs c)
  with assms have c: "c \<noteq> []" "CHR ''/'' \<notin> set c" by (auto simp: proper_def)
  from c(1) obtain a as where rc0: "rev c = a # as"
    by (cases "rev c") auto
  then have "a \<in> set c" by (metis list.set_intros(1) set_rev)
  with c(2) rc0 have rc: "rev c = a # as" "a \<noteq> CHR ''/''" by auto
  have "takeWhile (\<lambda>c. \<not> is_slash c) (rev c @ CHR ''/'' # rev (concat (map ((#) CHR ''/'') cs))) = rev c"
    using c by (subst takeWhile_append2) (auto simp: is_slash_def)
  then show ?thesis using snoc rc by (simp add: abs_path_def path_basename_def is_slash_def)
qed

section \<open>Properties of the registry and of the scan\<close>

lemma find_path_None: "find (\<lambda>(i, q). q = p) rs = None \<longleftrightarrow> p \<notin> snd ` set rs"
  by (induction rs) auto

lemma addPath_existed: "res_existed (fst (addPath r p)) \<longleftrightarrow> p \<in> reg_paths r"
  using find_path_None[of p "records r"]
  by (auto simp: addPath_def reg_paths_def split: option.splits)

lemma addPath_paths: "reg_paths (snd (addPath r p)) = insert p (reg_paths r)"
  using find_path_None[of p "records r"]
  by (auto simp: addPath_def reg_paths_def split: option.splits)

lemma addPath_known:
  "p \<in> reg_paths r \<Longrightarrow> snd (addPath r p) = r \<and> res_id (fst (addPath r p)) \<in> reg_ids r \<and>
     (res_id (fst (addPath r p)), p) \<in> set (records r)"
proof -
  assume "p \<in> reg_paths r"
  then obtain i q where f: "find (\<lambda>(i, q). q = p) (records r) = Some (i, q)"
    using find_path_None[of p "records r"] by (auto simp: reg_paths_def)
  then have "(i, q) \<in> set (records r)" "q = p"
    by (auto simp: find_Some_iff in_set_conv_nth)
  with f show ?thesis by (auto simp: addPath_def reg_ids_def intro: rev_image_eqI)
qed

lemma addPath_new:
  "p \<notin> reg_paths r \<Longrightarrow>
   addPath r p = (\<lparr>res_id = nextId r, res_existed = False\<rparr>,
                  r\<lparr>records := records r @ [(nextId r, p)], nextId := Suc (nextId r),
                    notifications := Suc (notifications r)\<rparr>)"
  using find_path_None[of p "records r"]
  by (auto simp: addPath_def reg_paths_def)

lemma find_append_Some: "find P xs = Some x \<Longrightarrow> find P (xs @ ys) = Some x"
  by (induction xs) (auto split: if_splits)

lemma addPath_known_id_stable:
  assumes "q \<in> reg_paths r"
  shows "res_id (fst (addPath (snd (addPath r p)) q)) = res_id (fst (addPath r q))"
proof (cases "p \<in> reg_paths r")
  case True
  then show ?thesis by (simp add: addPath_known)
next
  case False
  from assms obtain i q' where f: "find (\<lambda>(i, x). x = q) (records r) = Some (i, q')"
    using find_path_None[of q "records r"] by (auto simp: reg_paths_def)
  then show ?thesis using False by (simp add: addPath_new) (simp add: addPath_def find_append_Some)
qed

lemma addPath_wf: "reg_wf r \<Longrightarrow> reg_wf (snd (addPath r p))"
proof (cases "p \<in> reg_paths r")
  case True
  then show "reg_wf r \<Longrightarrow> ?thesis" by (simp add: addPath_known)
next
  case False
  assume "reg_wf r"
  then show ?thesis using False
    by (fastforce simp: addPath_new reg_wf_def reg_paths_def list_all_iff)
qed

lemma register_forget: "(register p st)\<lparr>failure := x\<rparr> = register p (st\<lparr>failure := x\<rparr>)"
  by (simp add: register_def split: prod.splits)

lemma reject_forget: "(reject e st)\<lparr>failure := None\<rparr> = st\<lparr>failure := None\<rparr>"
  by (simp add: reject_def split: option.splits)

lemma fold_scan_bridge:
  assumes "\<And>x s. x \<in> set xs \<Longrightarrow> (f x s)\<lparr>failure := None\<rparr> = fold register (g x) (s\<lparr>failure := None\<rparr>)"
  shows "(fold f xs s)\<lparr>failure := None\<rparr> = fold register (concat (map g xs)) (s\<lparr>failure := None\<rparr>)"
  using assms by (induction xs arbitrary: s) auto

lemma processEntry_discovered:
  "(processEntry h d entryPath depth topLevel st)\<lparr>failure := None\<rparr> =
     fold register (discovered h d entryPath depth) (st\<lparr>failure := None\<rparr>)"
proof (induction h d entryPath depth topLevel st rule: processEntry.induct)
  case (1 h d entryPath depth topLevel st)
  show ?case
  proof (cases "fs_stat h d entryPath")
    case None
    then show ?thesis by (simp add: processEntry_register discovered.simps[of h d entryPath] reject_forget)
  next
    case (Some isDirectory)
    note stat = Some
    show ?thesis
    proof (cases "isDirectory \<and> depth > 0")
      case True
      show ?thesis
      proof (cases "fs_readdir h d entryPath")
        case None
        with stat True show ?thesis
          by (simp add: processEntry_register discovered.simps[of h d entryPath] reject_forget)
      next
        case (Some fileNames)
        have "(fold (\<lambda>name. processEntry h d (path_resolve (cwd h) [entryPath, name]) (depth - 1) False)
                 (filter not_hidden fileNames) st)\<lparr>failure := None\<rparr> =
              fold register (concat (map (\<lambda>name. discovered h d (path_resolve (cwd h) [entryPath, name]) (depth - 1))
                 (filter not_hidden fileNames))) (st\<lparr>failure := None\<rparr>)"
          by (rule fold_scan_bridge) (rule 1[OF stat _ Some], use True in auto)
        with stat True Some show ?thesis
          by (simp add: processEntry_register discovered.simps[of h d entryPath])
      qed
    next
      case False
      with stat show ?thesis
        by (auto simp: processEntry_register discovered.simps[of h d entryPath] reject_forget register_forget)
    qed
  qed
qed

lemma fold_processEntry_discovered:
  "(fold (\<lambda>name. processEntry h d name depth topLevel) ps st)\<lparr>failure := None\<rparr> =
     fold register (concat (map (\<lambda>p. discovered h d p depth) ps)) (st\<lparr>failure := None\<rparr>)"
  by (rule fold_scan_bridge) (rule processEntry_discovered)

lemma register_known:
  "p \<in> reg_paths (reg st) \<Longrightarrow>
   register p st = st\<lparr>existed := existed st @ [res_id (fst (addPath (reg st) p))]\<rparr>"
  using addPath_known[of p "reg st"] addPath_existed[of "reg st" p]
  by (cases "addPath (reg st) p") (auto simp: register_def)

lemma register_new:
  "p \<notin> reg_paths (reg st) \<Longrightarrow>
   register p st = st\<lparr>reg := snd (addPath (reg st) p), added := added st @ [nextId (reg st)]\<rparr>"
  by (simp add: register_def addPath_new)

lemma fold_register_paths:
  "reg_paths (reg (fold register ps st)) = reg_paths (reg st) \<union> set ps"
proof (induction ps arbitrary: st)
  case (Cons p ps)
  show ?case
  proof (cases "p \<in> reg_paths (reg st)")
    case True
    then show ?thesis by (auto simp: Cons register_known)
  next
    case False
    then show ?thesis using addPath_paths[of "reg st" p] by (auto simp: Cons register_new)
  qed
qed simp

lemma fold_register_lists:
  "distinct ps \<Longrightarrow>
   added (fold register ps st) =
     added st @ [nextId (reg st) ..< nextId (reg st) + length (filter (\<lambda>p. p \<notin> reg_paths (reg st)) ps)] \<and>
   existed (fold register ps st) =
     existed st @ map (\<lambda>p. res_id (fst (addPath (reg st) p))) (filter (\<lambda>p. p \<in> reg_paths (reg st)) ps)"
proof (induction ps arbitrary: st)
  case Nil
  then show ?case by simp
next
  case (Cons p ps)
  then have d: "distinct ps" "p \<notin> set ps" by auto
  show ?case
  proof (cases "p \<in> reg_paths (reg st)")
    case True
    then show ?thesis using Cons.IH[OF d(1), of "register p st"] by (simp add: register_known)
  next
    case False
    let ?r' = "snd (addPath (reg st) p)"
    have paths: "reg_paths ?r' = insert p (reg_paths (reg st))" by (rule addPath_paths)
    have f1: "filter (\<lambda>q. q \<notin> reg_paths ?r') ps = filter (\<lambda>q. q \<notin> reg_paths (reg st)) ps"
      using d(2) by (intro filter_cong) (auto simp: paths)
    have f2: "filter (\<lambda>q. q \<in> reg_paths ?r') ps = filter (\<lambda>q. q \<in> reg_paths (reg st)) ps"
      using d(2) by (intro filter_cong) (auto simp: paths)
    have m: "map (\<lambda>q. res_id (fst (addPath ?r' q))) (filter (\<lambda>q. q \<in> reg_paths (reg st)) ps) =
             map (\<lambda>q. res_id (fst (addPath (reg st) q))) (filter (\<lambda>q. q \<in> reg_paths (reg st)) ps)"
      by (intro map_cong) (auto simp: addPath_known_id_stable)
    have n: "nextId ?r' = Suc (nextId (reg st))" using False by (simp add: addPath_new)
    have u: "[k ..< Suc (k + j)] = k # [Suc k ..< Suc (k + j)]" for k j :: nat
      by (rule upt_conv_Cons) simp
    show ?thesis using Cons.IH[OF d(1), of "register p st"] False
      by (simp add: register_new f1 f2 m n u del: upt_Suc)
  qed
qed

lemma known_ids_distinct:
  assumes "reg_wf r" "distinct ps" "set ps \<subseteq> reg_paths r"
  shows "distinct (map (\<lambda>p. res_id (fst (addPath r p))) ps)"
proof -
  have "inj_on (\<lambda>p. res_id (fst (addPath r p))) (set ps)"
  proof (rule inj_onI)
    fix p q assume pq: "p \<in> set ps" "q \<in> set ps"
      and eq: "res_id (fst (addPath r p)) = res_id (fst (addPath r q))"
    from pq assms(3) have "(res_id (fst (addPath r p)), p) \<in> set (records r)"
      "(res_id (fst (addPath r q)), q) \<in> set (records r)"
      by (auto simp: addPath_known)
    with eq assms(1) show "p = q"
      by (metis reg_wf_def eq_key_imp_eq_value)
  qed
  with assms(2) show ?thesis by (simp add: distinct_map)
qed

lemma known_ids_below:
  assumes "reg_wf r" "p \<in> reg_paths r"
  shows "res_id (fst (addPath r p)) < nextId r"
  using addPath_known[OF assms(2)] assms(1) by (auto simp: reg_wf_def list_all_iff)

lemma fold_register_no_duplicates:
  assumes "reg_wf (reg st)" "distinct ps" "added st = []" "existed st = []"
  shows "distinct (added (fold register ps st)) \<and> distinct (existed (fold register ps st)) \<and>
         set (added (fold register ps st)) \<inter> set (existed (fold register ps st)) = {}"
proof -
  note l = fold_register_lists[OF assms(2), of st]
  have de: "distinct (existed (fold register ps st))"
    using known_ids_distinct[OF assms(1), of "filter (\<lambda>p. p \<in> reg_paths (reg st)) ps"] assms(2,4)
    by (auto simp: l)
  have "\<forall>i \<in> set (existed (fold register ps st)). i < nextId (reg st)"
    using known_ids_below[OF assms(1)] assms(4) by (auto simp: l)
  moreover have "\<forall>i \<in> set (added (fold register ps st)). nextId (reg st) \<le> i"
    using assms(3) by (auto simp: l)
  ultimately have "set (added (fold register ps st)) \<inter> set (existed (fold register ps st)) = {}"
    by fastforce
  moreover have "distinct (added (fold register ps st))" using assms(3) by (simp add: l)
  ultimately show ?thesis using de by simp
qed

lemma register_reg: "reg (register p st) = snd (addPath (reg st) p)"
  by (simp add: register_def split: prod.splits)

lemma fold_register_added:
  "nextId (reg st) \<le> nextId (reg (fold register ps st)) \<and>
   added (fold register ps st) = added st @ [nextId (reg st) ..< nextId (reg (fold register ps st))]"
proof (induction ps arbitrary: st)
  case Nil
  show ?case by simp
next
  case (Cons p ps)
  note IH = Cons.IH[of "register p st"]
  show ?case
  proof (cases "p \<in> reg_paths (reg st)")
    case True
    then show ?thesis using IH by (simp add: register_known)
  next
    case False
    let ?n = "nextId (reg st)"
    let ?N = "nextId (reg (fold register ps (register p st)))"
    have n: "nextId (reg (register p st)) = Suc ?n" "added (register p st) = added st @ [?n]"
      using False by (simp_all add: register_new addPath_new)
    from IH n have le: "Suc ?n \<le> ?N" and a: "added (fold register ps (register p st)) =
        (added st @ [?n]) @ [Suc ?n ..< ?N]" by simp_all
    from le have "[?n ..< ?N] = ?n # [Suc ?n ..< ?N]" by (simp add: upt_conv_Cons)
    with le a show ?thesis by simp
  qed
qed

lemma fold_register_added_distinct:
  "added st = [] \<Longrightarrow> distinct (added (fold register ps st))"
  using fold_register_added[of st ps] by simp

lemma fold_register_existed_prefix:
  "\<exists>E. existed (fold register ps st) = existed st @ E"
proof (induction ps arbitrary: st)
  case Nil
  show ?case by simp
next
  case (Cons p ps)
  from Cons[of "register p st"] obtain E where
    E: "existed (fold register ps (register p st)) = existed (register p st) @ E" by blast
  have "\<exists>E'. existed (register p st) = existed st @ E'"
    by (cases "p \<in> reg_paths (reg st)") (simp_all add: register_known register_new)
  with E show ?case by auto
qed

lemma fold_register_id_stable:
  "p \<in> reg_paths (reg st) \<Longrightarrow>
   res_id (fst (addPath (reg (fold register ps st)) p)) = res_id (fst (addPath (reg st) p))"
proof (induction ps arbitrary: st)
  case Nil
  show ?case by simp
next
  case (Cons q ps)
  have "p \<in> reg_paths (reg (register q st))" using Cons.prems by (simp add: register_reg addPath_paths)
  from Cons.IH[OF this] show ?case
    using addPath_known_id_stable[OF Cons.prems, of q] by (simp add: register_reg)
qed

lemma find_append_None: "find P xs = None \<Longrightarrow> find P (xs @ ys) = find P ys"
  by (induction xs) (auto split: if_splits)

lemma addPath_again:
  "res_id (fst (addPath (snd (addPath r p)) p)) = res_id (fst (addPath r p))"
proof (cases "p \<in> reg_paths r")
  case True
  then show ?thesis by (simp add: addPath_known)
next
  case False
  then have "find (\<lambda>(i, q). q = p) (records r) = None"
    using find_path_None[of p "records r"] by (simp add: reg_paths_def)
  then have "find (\<lambda>(i, q). q = p) (records r @ [(nextId r, p)]) = Some (nextId r, p)"
    by (simp add: find_append_None)
  then show ?thesis using False by (simp add: addPath_new) (simp add: addPath_def)
qed

lemma register_id:
  "(res_id (fst (addPath (reg st) p)) \<in> set (added (register p st)) \<or>
    res_id (fst (addPath (reg st) p)) \<in> set (existed (register p st))) \<and>
   p \<in> reg_paths (reg (register p st)) \<and>
   res_id (fst (addPath (reg (register p st)) p)) = res_id (fst (addPath (reg st) p))"
proof (cases "p \<in> reg_paths (reg st)")
  case True
  then show ?thesis by (simp add: register_known)
next
  case False
  then show ?thesis
    by (simp add: register_reg addPath_paths addPath_again) (simp add: register_new addPath_new)
qed

lemma fold_register_repeat:
  assumes "\<not> distinct ps"
  shows "\<not> distinct (existed (fold register ps st)) \<or>
         set (added (fold register ps st)) \<inter> set (existed (fold register ps st)) \<noteq> {}"
proof -
  from assms obtain xs ys zs p where ps: "ps = xs @ [p] @ ys @ [p] @ zs"
    using not_distinct_decomp by blast
  let ?st1 = "fold register xs st"
  let ?st2 = "register p ?st1"
  let ?st3 = "fold register ys ?st2"
  let ?st4 = "register p ?st3"
  let ?st5 = "fold register zs ?st4"
  let ?i = "res_id (fst (addPath (reg ?st1) p))"
  have whole: "fold register ps st = ?st5" by (simp add: ps)
  from register_id[of ?st1 p] have
    first: "?i \<in> set (added ?st2) \<or> ?i \<in> set (existed ?st2)"
    and known2: "p \<in> reg_paths (reg ?st2)"
    and id2: "res_id (fst (addPath (reg ?st2) p)) = ?i" by simp_all
  have known3: "p \<in> reg_paths (reg ?st3)" using known2 by (simp add: fold_register_paths)
  have id3: "res_id (fst (addPath (reg ?st3) p)) = ?i"
    using fold_register_id_stable[OF known2, of ys] id2 by simp
  have e4: "existed ?st4 = existed ?st3 @ [?i]" and a4: "added ?st4 = added ?st3"
    using known3 id3 by (simp_all add: register_known)
  obtain E3 where E3: "existed ?st3 = existed ?st2 @ E3"
    using fold_register_existed_prefix[of ys ?st2] by blast
  obtain E5 where E5: "existed ?st5 = existed ?st4 @ E5"
    using fold_register_existed_prefix[of zs ?st4] by blast
  have a3: "set (added ?st2) \<subseteq> set (added ?st3)"
    using fold_register_added[of ?st2 ys] by auto
  have a5: "set (added ?st4) \<subseteq> set (added ?st5)"
    using fold_register_added[of ?st4 zs] by auto
  from first show ?thesis
  proof
    assume "?i \<in> set (added ?st2)"
    with a3 a4 a5 have "?i \<in> set (added ?st5)" by auto
    moreover have "?i \<in> set (existed ?st5)" by (simp add: E5 e4)
    ultimately show ?thesis unfolding whole by blast
  next
    assume "?i \<in> set (existed ?st2)"
    then have "?i \<in> set (existed ?st3)" by (simp add: E3)
    then have "\<not> distinct (existed ?st4)" by (simp add: e4)
    then have "\<not> distinct (existed ?st5)" by (simp add: E5)
    then show ?thesis unfolding whole by blast
  qed
qed

lemma processEntry_dir:
  "fs_stat h d p = Some True \<Longrightarrow> 0 < depth \<Longrightarrow> fs_readdir h d p = Some ns \<Longrightarrow>
   processEntry h d p depth topLevel st =
     fold (\<lambda>name. processEntry h d (path_resolve (cwd h) [p, name]) (depth - 1) False)
       (filter not_hidden ns) st"
  by (simp add: processEntry_register)

lemma processEntry_leaf:
  "fs_stat h d p = Some isDir \<Longrightarrow> \<not> (isDir \<and> 0 < depth) \<Longrightarrow>
   processEntry h d p depth topLevel st =
     (if path_basename p = MANIFEST_FILE_NAME then register p st
      else if topLevel then reject ManifestNamingError st else st)"
  by (auto simp: processEntry_register)

lemma discovered_dir:
  "fs_stat h d p = Some True \<Longrightarrow> 0 < depth \<Longrightarrow> fs_readdir h d p = Some ns \<Longrightarrow>
   discovered h d p depth =
     concat (map (\<lambda>name. discovered h d (path_resolve (cwd h) [p, name]) (depth - 1))
       (filter not_hidden ns))"
  by (simp add: discovered.simps[of h d p])

lemma discovered_leaf:
  "fs_stat h d p = Some isDir \<Longrightarrow> \<not> (isDir \<and> 0 < depth) \<Longrightarrow>
   discovered h d p depth = (if path_basename p = MANIFEST_FILE_NAME then [p] else [])"
  by (auto simp: discovered.simps[of h d p])

lemma discovered_nostat:
  "fs_stat h d p = None \<Longrightarrow> discovered h d p depth = []"
  by (simp add: discovered.simps[of h d p])

lemma discovered_unlisted:
  "fs_stat h d p = Some True \<Longrightarrow> 0 < depth \<Longrightarrow> fs_readdir h d p = None \<Longrightarrow>
   discovered h d p depth = []"
  by (simp add: discovered.simps[of h d p])

lemma import_registry:
  assumes "dialog_showOpenDialog h = Some r" "\<not> canceled r"
  shows "reg_paths (registry (snd (createMultipleNewLocalFileExtensions h depth w))) =
           reg_paths (registry w) \<union> set (concat (map (\<lambda>p. discovered h (disk w) p depth) (filePaths r)))"
proof -
  let ?st0 = "\<lparr>reg = registry w, added = [], existed = [], failure = None\<rparr>"
  let ?st = "fold (\<lambda>name. processEntry h (disk w) name depth True) (filePaths r) ?st0"
  have "registry (snd (createMultipleNewLocalFileExtensions h depth w)) = reg ?st"
    using assms by (simp add: createMultipleNewLocalFileExtensions_def Let_def split: option.splits)
  moreover have "reg ?st = reg (?st\<lparr>failure := None\<rparr>)" by simp
  ultimately show ?thesis
    by (simp only: fold_processEntry_discovered fold_register_paths) simp
qed

lemma import_lists:
  assumes "dialog_showOpenDialog h = Some r" "\<not> canceled r"
    and "createMultipleNewLocalFileExtensions h depth w = (Inr res, w')"
  shows "result_added res = added (fold register (concat (map (\<lambda>p. discovered h (disk w) p depth) (filePaths r)))
                               \<lparr>reg = registry w, added = [], existed = [], failure = None\<rparr>) \<and>
         result_existed res = existed (fold register (concat (map (\<lambda>p. discovered h (disk w) p depth) (filePaths r)))
                               \<lparr>reg = registry w, added = [], existed = [], failure = None\<rparr>)"
proof -
  let ?st0 = "\<lparr>reg = registry w, added = [], existed = [], failure = None\<rparr>"
  let ?st = "fold (\<lambda>name. processEntry h (disk w) name depth True) (filePaths r) ?st0"
  have "result_added res = added ?st \<and> result_existed res = existed ?st"
    using assms by (auto simp: createMultipleNewLocalFileExtensions_def Let_def split: option.splits)
  moreover have "added ?st = added (?st\<lparr>failure := None\<rparr>)" "existed ?st = existed (?st\<lparr>failure := None\<rparr>)"
    by simp_all
  ultimately show ?thesis
    by (simp only: fold_processEntry_discovered) simp
qed





lemma chain_proper: "chain h d comps names \<Longrightarrow> \<forall>n \<in> set names. proper n"
  by (induction names arbitrary: comps) auto

lemma discovered_chain:
  assumes "\<forall>c \<in> set comps. proper c" "chain h d comps names"
    and "fs_stat h d (abs_path (comps @ names)) = Some False"
    and "path_basename (abs_path (comps @ names)) = MANIFEST_FILE_NAME"
    and "int (length names) \<le> depth"
  shows "abs_path (comps @ names) \<in> set (discovered h d (abs_path comps) depth)"
  using assms
proof (induction names arbitrary: comps depth)
  case Nil
  then show ?case by (simp add: discovered_leaf[where isDir = False])
next
  case (Cons n ns)
  from Cons.prems(2) obtain listing where
    st: "fs_stat h d (abs_path comps) = Some True"
    and ls: "fs_readdir h d (abs_path comps) = Some listing" "n \<in> set listing"
    and n: "not_hidden n" "proper n"
    and ch: "chain h d (comps @ [n]) ns"
    by (auto split: option.splits)
  have dp: "0 < depth" using Cons.prems(5) by simp
  have "abs_path ((comps @ [n]) @ ns) \<in> set (discovered h d (abs_path (comps @ [n])) (depth - 1))"
    using Cons.prems n ch by (intro Cons.IH) auto
  moreover have "path_resolve (cwd h) [abs_path comps, n] = abs_path (comps @ [n])"
    using Cons.prems(1) n(2) by (rule path_resolve_abs_path)
  ultimately show ?case
    using ls n(1) by (auto simp: discovered_dir[OF st dp ls(1)] intro!: bexI[of _ n])
qed

lemma discovered_form:
  "listings_proper h d \<Longrightarrow> entryPath = abs_path comps \<Longrightarrow> \<forall>c \<in> set comps. proper c \<Longrightarrow>
   q \<in> set (discovered h d entryPath depth) \<Longrightarrow>
   \<exists>ns. q = abs_path (comps @ ns) \<and> (\<forall>n \<in> set ns. proper n) \<and> int (length ns) \<le> max depth 0"
proof (induction h d entryPath depth arbitrary: comps rule: discovered.induct)
  case (1 h d entryPath depth)
  note lp = "1.prems"(1) and ep = "1.prems"(2) and cp = "1.prems"(3) and qin = "1.prems"(4)
  show ?case
  proof (cases "fs_stat h d entryPath")
    case None
    with qin show ?thesis by (simp add: discovered_nostat)
  next
    case (Some isDirectory)
    note stat = Some
    show ?thesis
    proof (cases "isDirectory \<and> depth > 0")
      case True
      show ?thesis
      proof (cases "fs_readdir h d entryPath")
        case None
        with stat True qin show ?thesis by (simp add: discovered_unlisted)
      next
        case (Some fileNames)
        from qin stat True Some obtain n where
          n: "n \<in> set fileNames" "not_hidden n"
          and q: "q \<in> set (discovered h d (path_resolve (cwd h) [entryPath, n]) (depth - 1))"
          by (auto simp: discovered_dir)
        have pn: "proper n" using lp Some n(1) by (auto simp: listings_proper_def)
        have res: "path_resolve (cwd h) [entryPath, n] = abs_path (comps @ [n])"
          unfolding ep using cp pn by (rule path_resolve_abs_path)
        have "\<exists>ns. q = abs_path ((comps @ [n]) @ ns) \<and> (\<forall>n \<in> set ns. proper n) \<and>
                int (length ns) \<le> max (depth - 1) 0"
          using True n pn cp by (intro "1.IH"[OF stat _ Some _ lp res _ q]) auto
        then obtain ns where ns: "q = abs_path ((comps @ [n]) @ ns)" "\<forall>n \<in> set ns. proper n"
          "int (length ns) \<le> max (depth - 1) 0"
          by auto
        show ?thesis
          using ns pn True by (intro exI[of _ "n # ns"]) auto
      qed
    next
      case False
      with stat qin have "q = entryPath" by (auto simp: discovered_leaf split: if_splits)
      with ep show ?thesis by (intro exI[of _ "[]"]) simp
    qed
  qed
qed

lemma discovered_below_iff_depth:
  assumes "listings_proper h d" "\<forall>c \<in> set comps. proper c" "chain h d comps names" "names \<noteq> []"
    and "fs_stat h d (abs_path (comps @ names)) = Some False"
    and "path_basename (abs_path (comps @ names)) = MANIFEST_FILE_NAME"
  shows "abs_path (comps @ names) \<in> set (discovered h d (abs_path comps) depth) \<longleftrightarrow>
         int (length names) \<le> depth"
proof
  assume "int (length names) \<le> depth"
  then show "abs_path (comps @ names) \<in> set (discovered h d (abs_path comps) depth)"
    by (rule discovered_chain[OF assms(2,3,5,6)])
next
  assume "abs_path (comps @ names) \<in> set (discovered h d (abs_path comps) depth)"
  from discovered_form[OF assms(1) refl assms(2) this] obtain ns where
    ns: "abs_path (comps @ names) = abs_path (comps @ ns)" "\<forall>n \<in> set ns. proper n"
      "int (length ns) \<le> max depth 0" by blast
  have "\<forall>c \<in> set (comps @ names). proper c" "\<forall>c \<in> set (comps @ ns). proper c"
    using assms(2) chain_proper[OF assms(3)] ns(2) by auto
  from abs_path_inject[OF this ns(1)] have "names = ns" by simp
  with ns(3) assms(4) show "int (length names) \<le> depth" by (cases names) auto
qed

lemma processEntry_file:
  "fs_stat h d p = Some False \<Longrightarrow>
   processEntry h d p depth topLevel st =
     (if path_basename p = MANIFEST_FILE_NAME then register p st
      else if topLevel then reject ManifestNamingError st else st)"
  by (rule processEntry_leaf) auto

lemma processEntry_dir0:
  "fs_stat h d p = Some True \<Longrightarrow> \<not> 0 < depth \<Longrightarrow>
   processEntry h d p depth topLevel st =
     (if path_basename p = MANIFEST_FILE_NAME then register p st
      else if topLevel then reject ManifestNamingError st else st)"
  by (rule processEntry_leaf) auto

lemma discovered_file:
  "fs_stat h d p = Some False \<Longrightarrow>
   discovered h d p depth = (if path_basename p = MANIFEST_FILE_NAME then [p] else [])"
  by (rule discovered_leaf) auto

lemma discovered_dir0:
  "fs_stat h d p = Some True \<Longrightarrow> \<not> 0 < depth \<Longrightarrow>
   discovered h d p depth = (if path_basename p = MANIFEST_FILE_NAME then [p] else [])"
  by (rule discovered_leaf) auto

lemma example_host_sel:
  "FILE_EXTENSION_WHITE_LIST (example_host a b c) = [''.json'', ''.js'', ''.html'', ''.css'']"
  "sanitizeFileName (example_host a b c) = ex_sanitize"
  "JSON_parse (example_host a b c) = ex_parse"
  "JSON_stringify (example_host a b c) = ex_stringify"
  "cwd (example_host a b c) = ''/home/user''"
  "fs_stat (example_host a b c) = ex_stat"
  "fs_readdir (example_host a b c) = ex_readdir"
  "fs_readFile (example_host a b c) = ex_readFile"
  "access (example_host a b c) = ex_access"
  "mkPath (example_host a b c) = ex_mkPath"
  "fs_writeFile (example_host a b c) = ex_writeFile"
  "dialog_showOpenDialog (example_host a b c) = a"
  "dialogs_showSaveDialog (example_host a b c) = (\<lambda>options. b)"
  "dialogs_showOpenDialog (example_host a b c) = (\<lambda>lastDir. c)"
  by (simp_all add: example_host_def)

lemma example_world_sel:
  "disk example_world = example_disk"
  "registry example_world = empty_registry"
  "app_settings example_world = \<lparr>lastSavedPluginDir = None, lastExportDir = None, exportDir = None\<rparr>"
  "logged example_world = []"
  "messageBoxes example_world = []"
  by (simp_all add: example_world_def)

lemmas example_fs = ex_stat_def ex_readdir_def ex_readFile_def ex_access_def ex_mkPath_def
  ex_writeFile_def example_disk_def

lemmas path_defs = path_basename_def path_resolve_def normalizeString_def is_slash_def
  MANIFEST_FILE_NAME_def path_join_def path_normalize_def path_dirname_def path_parse_dir_def
  path_extname_def

lemmas scan_eval = processEntry_dir processEntry_file processEntry_dir0 register_def addPath_def
  empty_registry_def


lemma example_listings_proper: "listings_proper (example_host a b c) example_disk"
  by (auto simp: listings_proper_def example_host_sel ex_readdir_def example_disk_def proper_def
      split: if_splits)

lemma example_discovered:
  "discovered (example_host a b c) example_disk ''/plugins/b/x'' 1 = [''/plugins/b/x/manifest.json'']"
  by (subst discovered.simps, simp add: example_host_sel example_fs path_defs)+


lemma distinct_concat_map:
  assumes "distinct xs" "\<And>x. x \<in> set xs \<Longrightarrow> distinct (g x)"
    and "\<And>x y. x \<in> set xs \<Longrightarrow> y \<in> set xs \<Longrightarrow> x \<noteq> y \<Longrightarrow> set (g x) \<inter> set (g y) = {}"
  shows "distinct (concat (map g xs))"
  using assms
proof (induction xs)
  case Nil
  then show ?case by simp
next
  case (Cons x xs)
  have "set (g x) \<inter> set (g y) = {}" if "y \<in> set xs" for y
    using Cons.prems(1) Cons.prems(3)[of x y] that by auto
  then have "set (g x) \<inter> \<Union> (set ` g ` set xs) = {}" by auto
  moreover have "distinct (concat (map g xs))"
    using Cons.prems by (intro Cons.IH) auto
  ultimately show ?case using Cons.prems(2)[of x] by simp
qed

lemma discovered_distinct:
  "listings_proper h d \<Longrightarrow> listings_distinct h d \<Longrightarrow> entryPath = abs_path comps \<Longrightarrow>
   \<forall>c \<in> set comps. proper c \<Longrightarrow> distinct (discovered h d entryPath depth)"
proof (induction h d entryPath depth arbitrary: comps rule: discovered.induct)
  case (1 h d entryPath depth)
  note lp = "1.prems"(1) and ld = "1.prems"(2) and ep = "1.prems"(3) and cp = "1.prems"(4)
  show ?case
  proof (cases "fs_stat h d entryPath")
    case None
    then show ?thesis by (simp add: discovered_nostat)
  next
    case (Some isDirectory)
    note stat = Some
    show ?thesis
    proof (cases "isDirectory \<and> depth > 0")
      case True
      show ?thesis
      proof (cases "fs_readdir h d entryPath")
        case None
        with stat True show ?thesis by (simp add: discovered_unlisted)
      next
        case (Some fileNames)
        let ?g = "\<lambda>name. discovered h d (path_resolve (cwd h) [entryPath, name]) (depth - 1)"
        have pn: "proper n" if "n \<in> set fileNames" for n
          using lp Some that by (auto simp: listings_proper_def)
        have res: "path_resolve (cwd h) [entryPath, n] = abs_path (comps @ [n])"
          if "n \<in> set fileNames" for n
          unfolding ep using cp pn[OF that] by (rule path_resolve_abs_path)
        have "distinct (concat (map ?g (filter not_hidden fileNames)))"
        proof (rule distinct_concat_map)
          show "distinct (filter not_hidden fileNames)"
            using ld Some by (auto simp: listings_distinct_def)
        next
          fix n assume "n \<in> set (filter not_hidden fileNames)"
          then have n: "n \<in> set fileNames" "not_hidden n" by auto
          show "distinct (?g n)"
            using True n pn[OF n(1)] cp by (intro "1.IH"[OF stat _ Some _ lp ld res]) auto
        next
          fix n n' assume "n \<in> set (filter not_hidden fileNames)" "n' \<in> set (filter not_hidden fileNames)"
            and ne: "n \<noteq> n'"
          then have n: "n \<in> set fileNames" "n' \<in> set fileNames" by auto
          show "set (?g n) \<inter> set (?g n') = {}"
          proof (rule ccontr)
            assume "set (?g n) \<inter> set (?g n') \<noteq> {}"
            then obtain q where q: "q \<in> set (?g n)" "q \<in> set (?g n')" by auto
            have c1: "\<forall>c \<in> set (comps @ [n]). proper c" using cp pn[OF n(1)] by auto
            have c2: "\<forall>c \<in> set (comps @ [n']). proper c" using cp pn[OF n(2)] by auto
            from discovered_form[OF lp res[OF n(1)] c1 q(1)] obtain ns where
              ns: "q = abs_path ((comps @ [n]) @ ns)" "\<forall>x \<in> set ns. proper x" by auto
            from discovered_form[OF lp res[OF n(2)] c2 q(2)] obtain ns' where
              ns': "q = abs_path ((comps @ [n']) @ ns')" "\<forall>x \<in> set ns'. proper x" by auto
            have "(comps @ [n]) @ ns = (comps @ [n']) @ ns'"
              using c1 c2 ns ns' by (intro abs_path_inject) auto
            with ne show False by simp
          qed
        qed
        with stat True Some show ?thesis by (simp add: discovered_dir)
      qed
    next
      case False
      with stat show ?thesis by (auto simp: discovered_leaf)
    qed
  qed
qed

lemma separate_roots_discovered_once:
  assumes "listings_proper h d" "listings_distinct h d"
    and "distinct rootComps" "\<forall>cs \<in> set rootComps. \<forall>c \<in> set cs. proper c"
    and "\<forall>cs \<in> set rootComps. \<forall>cs' \<in> set rootComps. \<forall>ns. cs' = cs @ ns \<longrightarrow> cs' = cs"
  shows "distinct (concat (map (\<lambda>p. discovered h d p depth) (map abs_path rootComps)))"
proof -
  have "distinct (concat (map (\<lambda>cs. discovered h d (abs_path cs) depth) rootComps))"
  proof (rule distinct_concat_map)
    show "distinct rootComps" by (rule assms(3))
  next
    fix cs assume "cs \<in> set rootComps"
    with assms(4) show "distinct (discovered h d (abs_path cs) depth)"
      by (intro discovered_distinct[OF assms(1,2) refl]) auto
  next
    fix cs cs' assume in_roots: "cs \<in> set rootComps" "cs' \<in> set rootComps" and ne: "cs \<noteq> cs'"
    show "set (discovered h d (abs_path cs) depth) \<inter> set (discovered h d (abs_path cs') depth) = {}"
    proof (rule ccontr)
      assume "\<not> ?thesis"
      then obtain q where q: "q \<in> set (discovered h d (abs_path cs) depth)"
        "q \<in> set (discovered h d (abs_path cs') depth)" by auto
      have p1: "\<forall>c \<in> set cs. proper c" and p2: "\<forall>c \<in> set cs'. proper c"
        using assms(4) in_roots by auto
      from discovered_form[OF assms(1) refl p1 q(1)] obtain ns where
        ns: "q = abs_path (cs @ ns)" "\<forall>x \<in> set ns. proper x" by auto
      from discovered_form[OF assms(1) refl p2 q(2)] obtain ns' where
        ns': "q = abs_path (cs' @ ns')" "\<forall>x \<in> set ns'. proper x" by auto
      have "cs @ ns = cs' @ ns'"
        using p1 p2 ns ns' by (intro abs_path_inject) auto
      then obtain us where "cs = cs' @ us \<or> cs' = cs @ us"
        by (auto simp: append_eq_append_conv2)
      with assms(5) in_roots ne show False by metis
    qed
  qed
  then show ?thesis by (simp add: comp_def)
qed

section \<open>Properties of the validation loop and of the writes\<close>

lemma validateFiles_prefix:
  "(\<forall>f \<in> set pre. file_ok h f) \<Longrightarrow>
   \<exists>acc'. (\<forall>rest. validateFiles h (pre @ rest) i acc = validateFiles h rest (i + length pre) acc') \<and>
           (acc' \<noteq> None \<longleftrightarrow> acc \<noteq> None \<or> (\<exists>f \<in> set pre. name f = MANIFEST_FILE_NAME))"
proof (induction pre arbitrary: i acc)
  case Nil
  show ?case by (intro exI[of _ acc]) simp
next
  case (Cons f pre)
  then have ok: "file_ok h f" and rest: "\<forall>f \<in> set pre. file_ok h f" by auto
  show ?case
  proof (cases "name f = MANIFEST_FILE_NAME")
    case True
    with ok obtain s m where m: "content f = Text s" "JSON_parse h s = Some m"
      "js_is_object m" "\<not> js_truthy (js_get m ''build'')" "\<not> name_rejected h (name f)"
      by (auto simp: file_ok_def split: content.splits option.splits)
    from Cons.IH[OF rest, of "Suc i" "Some (m, i)"] obtain acc' where
      A: "\<forall>rest. validateFiles h (pre @ rest) (Suc i) (Some (m, i)) = validateFiles h rest (Suc i + length pre) acc'"
      and B: "acc' \<noteq> None \<longleftrightarrow> Some (m, i) \<noteq> None \<or> (\<exists>f \<in> set pre. name f = MANIFEST_FILE_NAME)"
      by blast
    from B have "acc' \<noteq> None" by simp
    with A True m show ?thesis by (intro exI[of _ acc']) simp
  next
    case False
    from Cons.IH[OF rest, of "Suc i" acc] obtain acc' where
      A: "\<forall>rest. validateFiles h (pre @ rest) (Suc i) acc = validateFiles h rest (Suc i + length pre) acc'"
      and B: "acc' \<noteq> None \<longleftrightarrow> acc \<noteq> None \<or> (\<exists>f \<in> set pre. name f = MANIFEST_FILE_NAME)"
      by blast
    from A False ok have "\<forall>rest. validateFiles h ((f # pre) @ rest) i acc = validateFiles h rest (i + length (f # pre)) acc'"
      by (simp add: file_ok_def)
    moreover from B False have "acc' \<noteq> None \<longleftrightarrow> acc \<noteq> None \<or> (\<exists>g \<in> set (f # pre). name g = MANIFEST_FILE_NAME)"
      by simp
    ultimately show ?thesis by blast
  qed
qed

lemma validateFiles_all_ok:
  assumes "\<forall>f \<in> set files. file_ok h f" "\<exists>f \<in> set files. name f = MANIFEST_FILE_NAME"
  shows "\<exists>manifest manifestFile. validateFiles h files 0 None = Inr (Some (manifest, manifestFile))"
proof -
  from validateFiles_prefix[OF assms(1), of 0 None] assms(2)
  obtain acc' where "validateFiles h (files @ []) 0 None = validateFiles h [] (0 + length files) acc'"
    "acc' \<noteq> None" by blast
  then show ?thesis by (cases acc') auto
qed

lemma validateFiles_rejected:
  "f \<in> set files \<Longrightarrow> name_rejected h (name f) \<Longrightarrow> \<exists>e. validateFiles h files i acc = Inl e"
proof (induction files arbitrary: i acc)
  case Nil
  then show ?case by simp
next
  case (Cons g files)
  show ?case
  proof (cases "g = f")
    case True
    with Cons.prems show ?thesis by simp
  next
    case False
    with Cons.prems have "f \<in> set files" by simp
    from Cons.IH[OF this Cons.prems(2)] show ?thesis
      by (auto split: content.splits option.splits)
  qed
qed


lemma writeNew_validation_error:
  "validateFiles h files 0 None = Inl e \<Longrightarrow> writeNewExtensionToDisk h files dirName w = (Inl e, w)"
  by (simp add: writeNewExtensionToDisk_def)

lemma writeOne_frame [simp]:
  "app_settings (fst (writeOne h saveDir n f st)) = app_settings (fst st)"
  "registry (fst (writeOne h saveDir n f st)) = registry (fst st)"
  "messageBoxes (fst (writeOne h saveDir n f st)) = messageBoxes (fst st)"
  by (simp_all add: writeOne_def Let_def split: prod.splits)

lemma fold_writeOne_frame [simp]:
  "app_settings (fst (fold (writeOne h saveDir n) fs st)) = app_settings (fst st)"
  "registry (fst (fold (writeOne h saveDir n) fs st)) = registry (fst st)"
  "messageBoxes (fst (fold (writeOne h saveDir n) fs st)) = messageBoxes (fst st)"
  by (induction fs arbitrary: st) simp_all

lemma fold_writeOne_no_throw:
  "js_template_ok n \<Longrightarrow> snd (fold (writeOne h saveDir n) fs st) = snd st"
  by (induction fs arbitrary: st) (simp_all add: writeOne_def Let_def split: prod.splits)

lemma validateFiles_result:
  "validateFiles h fs i acc = Inr (Some (m, j)) \<Longrightarrow>
   acc = Some (m, j) \<or>
   (i \<le> j \<and> j < i + length fs \<and> name (fs ! (j - i)) = MANIFEST_FILE_NAME \<and>
    (\<exists>s. content (fs ! (j - i)) = Text s \<and> JSON_parse h s = Some m))"
proof (induction fs arbitrary: i acc)
  case Nil
  then show ?case by simp
next
  case (Cons f fs)
  show ?case
  proof (cases "name f = MANIFEST_FILE_NAME")
    case True
    with Cons.prems obtain s m' where m': "content f = Text s" "JSON_parse h s = Some m'"
      and v: "validateFiles h fs (Suc i) (Some (m', i)) = Inr (Some (m, j))"
      by (auto split: if_splits content.splits option.splits)
    from Cons.IH[OF v] show ?thesis
    proof
      assume "Some (m', i) = Some (m, j)"
      with m' True show ?thesis by simp
    next
      assume a: "Suc i \<le> j \<and> j < Suc i + length fs \<and> name (fs ! (j - Suc i)) = MANIFEST_FILE_NAME \<and>
        (\<exists>s. content (fs ! (j - Suc i)) = Text s \<and> JSON_parse h s = Some m)"
      then have "Suc i \<le> j" by simp
      then have "j - i = Suc (j - Suc i)" by simp
      with a show ?thesis by simp
    qed
  next
    case False
    with Cons.prems have v: "validateFiles h fs (Suc i) acc = Inr (Some (m, j))"
      by (auto split: if_splits)
    from Cons.IH[OF v] show ?thesis
    proof
      assume "acc = Some (m, j)"
      then show ?thesis by simp
    next
      assume a: "Suc i \<le> j \<and> j < Suc i + length fs \<and> name (fs ! (j - Suc i)) = MANIFEST_FILE_NAME \<and>
        (\<exists>s. content (fs ! (j - Suc i)) = Text s \<and> JSON_parse h s = Some m)"
      then have "Suc i \<le> j" by simp
      then have "j - i = Suc (j - Suc i)" by simp
      with a show ?thesis by simp
    qed
  qed
qed

lemma js_set_key_absent: "map_of kvs key = None \<Longrightarrow> js_set_key kvs key x = kvs @ [(key, x)]"
  by (induction kvs) (auto split: if_splits)

lemma map_of_append_new: "map_of kvs key = None \<Longrightarrow> map_of (kvs @ [(key, x)]) key = Some x"
  by (simp add: map_add_def)

lemma writeOne_logged: "set (logged (fst st)) \<subseteq> set (logged (fst (writeOne h sd mn f st)))"
  by (auto simp: writeOne_def Let_def split: prod.splits)

lemma fold_writeOne_logged:
  "set (logged (fst st)) \<subseteq> set (logged (fst (fold (writeOne h sd mn) fs st)))"
proof (induction fs arbitrary: st)
  case (Cons f fs)
  show ?case using writeOne_logged[of st h sd mn f] Cons[of "writeOne h sd mn f st"] by auto
qed simp

lemma fold_writeOne_other:
  assumes "\<forall>d p c ok d' q. fs_writeFile h d p c = (ok, d') \<longrightarrow> q \<noteq> p \<longrightarrow> fs_readFile h d' q = fs_readFile h d q"
  shows "(\<forall>f \<in> set fs. path_join [sd, name f] \<noteq> p) \<Longrightarrow>
         fs_readFile h (disk (fst (fold (writeOne h sd mn) fs st))) p = fs_readFile h (disk (fst st)) p"
proof (induction fs arbitrary: st)
  case (Cons f fs)
  have "fs_readFile h (disk (fst (writeOne h sd mn f st))) p = fs_readFile h (disk (fst st)) p"
    using assms Cons.prems
    by (cases "fs_writeFile h (disk (fst st)) (path_join [sd, name f]) (content f)")
      (auto simp: writeOne_def Let_def)
  with Cons show ?case by simp
qed simp

lemma fold_writeOne_read:
  assumes W1: "\<forall>d p c d'. fs_writeFile h d p (Text c) = (True, d') \<longrightarrow> fs_readFile h d' p = Some c"
    and W2: "\<forall>d p c ok d' q. fs_writeFile h d p c = (ok, d') \<longrightarrow> q \<noteq> p \<longrightarrow> fs_readFile h d' q = fs_readFile h d q"
    and i: "i < length fs" "name (fs ! i) = nm" "content (fs ! i) = Text c"
    and others: "\<forall>j < length fs. j \<noteq> i \<longrightarrow> path_join [sd, name (fs ! j)] \<noteq> path_join [sd, nm]"
    and printable: "js_template_ok mn"
    and nolog: "path_join [sd, nm] \<notin> fst ` set (logged (fst (fold (writeOne h sd mn) fs st)))"
  shows "fs_readFile h (disk (fst (fold (writeOne h sd mn) fs st))) (path_join [sd, nm]) = Some c"
proof -
  let ?p = "path_join [sd, nm]"
  let ?wa = "fold (writeOne h sd mn) (take i fs) st"
  let ?wb = "writeOne h sd mn (fs ! i) ?wa"
  have split: "fs = take i fs @ fs ! i # drop (Suc i) fs"
    using i(1) by (rule id_take_nth_drop)
  have whole: "fold (writeOne h sd mn) fs st = fold (writeOne h sd mn) (drop (Suc i) fs) ?wb"
    by (subst split) simp
  have after: "\<forall>f \<in> set (drop (Suc i) fs). path_join [sd, name f] \<noteq> ?p"
  proof
    fix f assume "f \<in> set (drop (Suc i) fs)"
    then obtain k where "k < length fs - Suc i" "f = fs ! (Suc i + k)"
      by (auto simp: in_set_conv_nth)
    with others show "path_join [sd, name f] \<noteq> ?p" by auto
  qed
  obtain ok d' where wr: "fs_writeFile h (disk (fst ?wa)) ?p (Text c) = (ok, d')"
    by (cases "fs_writeFile h (disk (fst ?wa)) ?p (Text c)")
  have ok
  proof (rule ccontr)
    assume "\<not> ok"
    with wr i printable have "(?p, mn) \<in> set (logged (fst ?wb))"
      by (simp add: writeOne_def Let_def)
    with fold_writeOne_logged[of ?wb h sd mn "drop (Suc i) fs"] whole
    have "(?p, mn) \<in> set (logged (fst (fold (writeOne h sd mn) fs st)))" by auto
    with nolog show False by force
  qed
  with wr W1 i have "fs_readFile h (disk (fst ?wb)) ?p = Some c"
    by (auto simp: writeOne_def Let_def)
  with fold_writeOne_other[OF W2 after, of mn ?wb] whole show ?thesis by simp
qed

lemma getPath_new:
  assumes "reg_wf r" "p \<notin> reg_paths r"
  shows "getPath (snd (addPath r p)) (nextId r) = Some p"
proof -
  have "nextId r \<notin> fst ` set (records r)"
    using assms(1) by (auto simp: reg_wf_def list_all_iff)
  then have "map_of (records r) (nextId r) = None" by (simp add: map_of_eq_None_iff)
  then show ?thesis using assms(2) by (simp add: addPath_new getPath_def map_add_def)
qed

lemmas name_eval = name_rejected_def shape_test_def is_word_char_def ex_sanitize_def
  path_extname_def path_basename_def is_slash_def MANIFEST_FILE_NAME_def

lemma example_names:
  "\<not> name_rejected (example_host a b c) ''manifest.json''"
  "\<not> name_rejected (example_host a b c) ''code.js''"
  "name_rejected (example_host a b c) ''bad name.js''"
  by (simp_all add: name_eval example_host_sel)

lemma example_file_ok:
  "file_ok (example_host a b c) code_file"
  "file_ok (example_host a b c) (manifest_file ''{}'')"
  by (simp_all add: file_ok_def code_file_def manifest_file_def example_names example_host_sel
      ex_parse_def MANIFEST_FILE_NAME_def)

lemmas writeNew_eval = writeNewExtensionToDisk_def name_eval example_host_sel example_world_sel
  ex_parse_def ex_stringify_def text_named_def text_build_named_def manifest_file_def code_file_def bad_file_def Let_def
  path_parse_dir_def path_join_def path_normalize_def normalizeString_def
  example_fs writeOne_def addPath_def empty_registry_def

lemma manifest_file_sel:
  "name (manifest_file s) = ''manifest.json''" "content (manifest_file s) = Text s"
  by (simp_all add: manifest_file_def)

lemma example_write_then_read:
  "\<forall>d p c d'. fs_writeFile (example_host a b e) d p (Text c) = (True, d') \<longrightarrow>
      fs_readFile (example_host a b e) d' p = Some c"
  by (auto simp: example_host_sel ex_writeFile_def ex_readFile_def split: if_splits)

lemma example_write_elsewhere:
  "\<forall>d p c ok d' q. fs_writeFile (example_host a b e) d p c = (ok, d') \<longrightarrow> q \<noteq> p \<longrightarrow>
      fs_readFile (example_host a b e) d' q = fs_readFile (example_host a b e) d q"
  by (auto simp: example_host_sel ex_writeFile_def ex_readFile_def split: if_splits)


section \<open>Claims about \<^verbatim>\<open>createMultipleNewLocalFileExtensions\<close>\<close>

text \<open>
  Claim C10. When the open dialog returns nothing or is cancelled, the handler returns
  two empty lists, raises no error, and leaves the registry and the rest of the state as
  they were.
\<close>

theorem import_cancelled:
  assumes "dialog_showOpenDialog h = None \<or> (\<exists>r. dialog_showOpenDialog h = Some r \<and> canceled r)"
  shows "createMultipleNewLocalFileExtensions h depth w =
           (Inr \<lparr>result_added = [], result_existed = []\<rparr>, w)"
  using assms by (auto simp: createMultipleNewLocalFileExtensions_def)

text \<open>The dialog is cancelled with a path still selected.\<close>

theorem import_cancelled_witness:
  "createMultipleNewLocalFileExtensions
     (example_host (Some \<lparr>canceled = True, filePaths = [''/plugins'']\<rparr>) None None) 2 example_world =
     (Inr \<lparr>result_added = [], result_existed = []\<rparr>, example_world)"
  using import_cancelled[of "example_host (Some \<lparr>canceled = True, filePaths = [''/plugins'']\<rparr>) None None" 2 example_world]
  by (simp add: example_host_def)





text \<open>
  Claim C3, as the code has it. The handler pushes the id of every path it hands to the
  registry and removes no duplicate. The ids of \<^verbatim>\<open>added\<close> are minted one after another,
  so no id is twice in \<^verbatim>\<open>added\<close>, whatever the roots and the registry. For a registry
  that holds one id per path, \<^verbatim>\<open>existed\<close> has no id twice and shares no id with \<^verbatim>\<open>added\<close>
  exactly when the scan of the picked roots hands no path to the registry twice.
  Distinct roots of which none lies below another are scanned that way (lemma
  \<open>separate_roots_discovered_once\<close>), and the lemmas behind the theorem
  (\<open>fold_register_no_duplicates\<close>, \<open>fold_register_repeat\<close>) hold for every order in which
  the paths reach the registry.
\<close>

theorem import_no_duplicates:
  assumes "dialog_showOpenDialog h = Some r" "\<not> canceled r"
    and "createMultipleNewLocalFileExtensions h depth w = (Inr res, w')"
  shows "distinct (result_added res) \<and>
         (reg_wf (registry w) \<longrightarrow>
            (distinct (result_existed res) \<and> set (result_added res) \<inter> set (result_existed res) = {}
             \<longleftrightarrow> distinct (concat (map (\<lambda>p. discovered h (disk w) p depth) (filePaths r)))))"
proof -
  let ?ps = "concat (map (\<lambda>p. discovered h (disk w) p depth) (filePaths r))"
  let ?st = "\<lparr>reg = registry w, added = [], existed = [], failure = None\<rparr>"
  note l = import_lists[OF assms]
  have "distinct (result_added res)"
    using fold_register_added_distinct[of ?st ?ps] l by simp
  moreover have "distinct (result_existed res) \<and> set (result_added res) \<inter> set (result_existed res) = {}"
    if "reg_wf (registry w)" "distinct ?ps"
    using fold_register_no_duplicates[of ?st ?ps] that l by simp
  moreover have "distinct ?ps"
    if "distinct (result_existed res) \<and> set (result_added res) \<inter> set (result_existed res) = {}"
    using fold_register_repeat[of ?ps ?st] that l by auto
  ultimately show ?thesis by blast
qed

text \<open>
  The root \<open>/plugins\<close> scanned with depth 3, one of its two manifests registered before:
  the lists are duplicate-free and disjoint, and the scan has reached no path twice.
\<close>

theorem import_no_duplicates_witness:
  "fst (createMultipleNewLocalFileExtensions (example_host (picked [''/plugins'']) None None) 3
          (example_world\<lparr>registry :=
             \<lparr>records = [(0, ''/plugins/a/manifest.json'')], nextId = 1, notifications = 1\<rparr>\<rparr>)) =
     Inr \<lparr>result_added = [1], result_existed = [0]\<rparr> \<and>
   distinct [1::nat] \<and> distinct [0::nat] \<and> set [1::nat] \<inter> set [0] = {} \<and>
   distinct (discovered (example_host (picked [''/plugins'']) None None) example_disk ''/plugins'' 3)"
proof -
  let ?h = "example_host (picked [''/plugins'']) None None"
  let ?w = "example_world\<lparr>registry :=
             \<lparr>records = [(0, ''/plugins/a/manifest.json'')], nextId = 1, notifications = 1\<rparr>\<rparr>"
  have run: "fst (createMultipleNewLocalFileExtensions ?h 3 ?w) =
      Inr \<lparr>result_added = [1], result_existed = [0]\<rparr>"
    by (simp add: createMultipleNewLocalFileExtensions_def picked_def example_host_sel
      example_world_sel example_fs path_defs scan_eval)
  then have run': "createMultipleNewLocalFileExtensions ?h 3 ?w =
      (Inr \<lparr>result_added = [1], result_existed = [0]\<rparr>, snd (createMultipleNewLocalFileExtensions ?h 3 ?w))"
    by (simp add: prod_eq_iff)
  have wf: "reg_wf (registry ?w)"
    by (simp add: reg_wf_def)
  have dlg: "dialog_showOpenDialog ?h = Some \<lparr>canceled = False, filePaths = [''/plugins'']\<rparr>"
    by (simp add: example_host_sel picked_def)
  from import_no_duplicates[OF dlg _ run'] wf run show ?thesis
    by (simp add: example_world_sel)
qed

text \<open>
  Against claim C3 as stated: the picked roots \<open>/plugins\<close> and \<open>/plugins/a\<close> both reach
  \<open>/plugins/a/manifest.json\<close> with depth 2, and its id 0 is returned in both lists; when
  the manifest is picked as well, its id is returned twice in \<^verbatim>\<open>existed\<close>.
\<close>

theorem import_duplicates_counterexample:
  "fst (createMultipleNewLocalFileExtensions
          (example_host (picked [''/plugins'', ''/plugins/a'']) None None) 2 example_world) =
     Inr \<lparr>result_added = [0], result_existed = [0]\<rparr> \<and>
   fst (createMultipleNewLocalFileExtensions
          (example_host (picked [''/plugins'', ''/plugins/a'', ''/plugins/a/manifest.json'']) None None)
          2 example_world) =
     Inr \<lparr>result_added = [0], result_existed = [0, 0]\<rparr>"
  by (simp add: createMultipleNewLocalFileExtensions_def picked_def example_host_sel
      example_world_sel example_fs path_defs scan_eval)

text \<open>
  Claim C5, as the code has it. The depth of a manifest below a picked root directory is
  counted as the spec's scenario counts it, in directory levels: a manifest listed in
  the root itself is at depth 0, \<open>/plugins/b/x/manifest.json\<close> is at depth 2 below
  \<open>/plugins\<close>. \<^verbatim>\<open>processEntry\<close> spends one level of the budget on listing the directory
  that holds the manifest, so a file named like the manifest, reached from the root
  through a chain of listed, non-hidden names with \<open>k\<close> directories between the root and
  the file, and not registered before, is discovered by the scan of that root if and
  only if \<open>k < depth\<close>, for every integer \<open>depth\<close>. With several picks it is in the
  registry after the handler has run if and only if \<open>k < depth\<close> or the scan of another
  pick hands it to the registry (\<open>discovered\<close> is the list of the paths a scan hands
  over, lemma \<open>processEntry_discovered\<close>). A pick that is itself a file named like the
  manifest is registered whatever the depth. The listings are assumed to hold proper
  names, as \<^verbatim>\<open>readdir\<close> gives them.
\<close>

theorem manifest_registered_iff_within_depth:
  assumes "dialog_showOpenDialog h = Some r" "\<not> canceled r"
  shows "(abs_path comps \<in> set (filePaths r) \<and>
          listings_proper h (disk w) \<and> (\<forall>c \<in> set comps. proper c) \<and>
          chain h (disk w) comps (dirs @ [MANIFEST_FILE_NAME]) \<and>
          fs_stat h (disk w) (abs_path (comps @ dirs @ [MANIFEST_FILE_NAME])) = Some False \<and>
          abs_path (comps @ dirs @ [MANIFEST_FILE_NAME]) \<notin> reg_paths (registry w) \<longrightarrow>
            (abs_path (comps @ dirs @ [MANIFEST_FILE_NAME]) \<in>
               reg_paths (registry (snd (createMultipleNewLocalFileExtensions h depth w))) \<longleftrightarrow>
             int (length dirs) < depth \<or>
             (\<exists>q \<in> set (filePaths r). q \<noteq> abs_path comps \<and>
                abs_path (comps @ dirs @ [MANIFEST_FILE_NAME]) \<in> set (discovered h (disk w) q depth)))) \<and>
         (\<forall>q \<in> set (filePaths r).
            fs_stat h (disk w) q = Some False \<and> path_basename q = MANIFEST_FILE_NAME \<longrightarrow>
            q \<in> reg_paths (registry (snd (createMultipleNewLocalFileExtensions h depth w))))"
proof (intro conjI impI)
  let ?t = "abs_path (comps @ dirs @ [MANIFEST_FILE_NAME])"
  let ?after = "reg_paths (registry (snd (createMultipleNewLocalFileExtensions h depth w)))"
  have after: "?after = reg_paths (registry w) \<union>
      (\<Union>q \<in> set (filePaths r). set (discovered h (disk w) q depth))"
    using import_registry[OF assms(1,2), of depth w] by simp
  show "\<forall>q \<in> set (filePaths r).
          fs_stat h (disk w) q = Some False \<and> path_basename q = MANIFEST_FILE_NAME \<longrightarrow> q \<in> ?after"
  proof (intro ballI impI)
    fix q assume q: "q \<in> set (filePaths r)"
      and f: "fs_stat h (disk w) q = Some False \<and> path_basename q = MANIFEST_FILE_NAME"
    then have "discovered h (disk w) q depth = [q]" by (simp add: discovered_file)
    then have "q \<in> set (discovered h (disk w) q depth)" by simp
    with q show "q \<in> ?after" unfolding after by blast
  qed
  assume H: "abs_path comps \<in> set (filePaths r) \<and>
          listings_proper h (disk w) \<and> (\<forall>c \<in> set comps. proper c) \<and>
          chain h (disk w) comps (dirs @ [MANIFEST_FILE_NAME]) \<and>
          fs_stat h (disk w) (abs_path (comps @ dirs @ [MANIFEST_FILE_NAME])) = Some False \<and>
          abs_path (comps @ dirs @ [MANIFEST_FILE_NAME]) \<notin> reg_paths (registry w)"
  then have picked: "abs_path comps \<in> set (filePaths r)"
    and lp: "listings_proper h (disk w)"
    and pc: "\<forall>c \<in> set comps. proper c"
    and ch: "chain h (disk w) comps (dirs @ [MANIFEST_FILE_NAME])"
    and isfile: "fs_stat h (disk w) (abs_path (comps @ dirs @ [MANIFEST_FILE_NAME])) = Some False"
    and fresh: "abs_path (comps @ dirs @ [MANIFEST_FILE_NAME]) \<notin> reg_paths (registry w)"
    by blast+
  have pr: "\<forall>c \<in> set (comps @ dirs @ [MANIFEST_FILE_NAME]). proper c"
    using pc chain_proper[OF ch] by auto
  have base: "path_basename ?t = MANIFEST_FILE_NAME"
    using path_basename_abs_path[OF pr] by simp
  have "int (length (dirs @ [MANIFEST_FILE_NAME])) = int (length dirs) + 1" by simp
  then have len: "int (length (dirs @ [MANIFEST_FILE_NAME])) \<le> depth \<longleftrightarrow> int (length dirs) < depth"
    by linarith
  have "abs_path (comps @ (dirs @ [MANIFEST_FILE_NAME])) \<in> set (discovered h (disk w) (abs_path comps) depth) \<longleftrightarrow>
        int (length (dirs @ [MANIFEST_FILE_NAME])) \<le> depth"
  proof (rule discovered_below_iff_depth[OF lp pc ch])
    show "dirs @ [MANIFEST_FILE_NAME] \<noteq> []" by simp
    show "fs_stat h (disk w) (abs_path (comps @ dirs @ [MANIFEST_FILE_NAME])) = Some False"
      by (rule isfile)
    show "path_basename (abs_path (comps @ dirs @ [MANIFEST_FILE_NAME])) = MANIFEST_FILE_NAME"
      by (rule base)
  qed
  then have own: "?t \<in> set (discovered h (disk w) (abs_path comps) depth) \<longleftrightarrow> int (length dirs) < depth"
    unfolding len .
  have "?t \<in> ?after \<longleftrightarrow> (\<exists>q \<in> set (filePaths r). ?t \<in> set (discovered h (disk w) q depth))"
    unfolding after using fresh by blast
  also have "\<dots> \<longleftrightarrow> int (length dirs) < depth \<or>
        (\<exists>q \<in> set (filePaths r). q \<noteq> abs_path comps \<and> ?t \<in> set (discovered h (disk w) q depth))"
  proof
    assume "\<exists>q \<in> set (filePaths r). ?t \<in> set (discovered h (disk w) q depth)"
    then obtain q where q: "q \<in> set (filePaths r)" "?t \<in> set (discovered h (disk w) q depth)" ..
    show "int (length dirs) < depth \<or>
        (\<exists>q \<in> set (filePaths r). q \<noteq> abs_path comps \<and> ?t \<in> set (discovered h (disk w) q depth))"
    proof (cases "q = abs_path comps")
      case True
      with q(2) own show ?thesis by simp
    next
      case False
      with q have "\<exists>q \<in> set (filePaths r). q \<noteq> abs_path comps \<and> ?t \<in> set (discovered h (disk w) q depth)"
        by (intro bexI[of _ q]) simp_all
      then show ?thesis ..
    qed
  next
    assume "int (length dirs) < depth \<or>
        (\<exists>q \<in> set (filePaths r). q \<noteq> abs_path comps \<and> ?t \<in> set (discovered h (disk w) q depth))"
    then show "\<exists>q \<in> set (filePaths r). ?t \<in> set (discovered h (disk w) q depth)"
    proof
      assume "int (length dirs) < depth"
      with own have "?t \<in> set (discovered h (disk w) (abs_path comps) depth)" by simp
      with picked show ?thesis by (intro bexI[of _ "abs_path comps"])
    next
      assume "\<exists>q \<in> set (filePaths r). q \<noteq> abs_path comps \<and> ?t \<in> set (discovered h (disk w) q depth)"
      then obtain q where "q \<in> set (filePaths r)" "q \<noteq> abs_path comps \<and> ?t \<in> set (discovered h (disk w) q depth)" ..
      then show ?thesis by (intro bexI[of _ q]) simp_all
    qed
  qed
  finally show "?t \<in> ?after \<longleftrightarrow>
      int (length dirs) < depth \<or>
      (\<exists>q \<in> set (filePaths r). q \<noteq> abs_path comps \<and> ?t \<in> set (discovered h (disk w) q depth))" .
qed

text \<open>
  The root \<open>/plugins\<close> with depth 2: the manifest one directory below it is registered,
  the one two directories below it is not. With depth 1 and the second pick
  \<open>/plugins/b/x\<close>, the manifest two directories below \<open>/plugins\<close> is registered by the
  scan of the second pick. The manifest \<open>/plugins/a/manifest.json\<close>, picked itself, is
  registered with depth \<open>-1\<close>.
\<close>

theorem manifest_registered_iff_within_depth_witness:
  "''/plugins/a/manifest.json'' \<in>
     reg_paths (registry (snd (createMultipleNewLocalFileExtensions
        (example_host (picked [''/plugins'']) None None) 2 example_world))) \<and>
   ''/plugins/b/x/manifest.json'' \<notin>
     reg_paths (registry (snd (createMultipleNewLocalFileExtensions
        (example_host (picked [''/plugins'']) None None) 2 example_world))) \<and>
   ''/plugins/b/x/manifest.json'' \<in>
     reg_paths (registry (snd (createMultipleNewLocalFileExtensions
        (example_host (picked [''/plugins'', ''/plugins/b/x'']) None None) 1 example_world))) \<and>
   ''/plugins/a/manifest.json'' \<in>
     reg_paths (registry (snd (createMultipleNewLocalFileExtensions
        (example_host (picked [''/plugins/a/manifest.json'']) None None) (- 1) example_world)))"
  using manifest_registered_iff_within_depth[of "example_host (picked [''/plugins'']) None None"
      "\<lparr>canceled = False, filePaths = [''/plugins'']\<rparr>" "[''plugins'']" example_world
      "[''a'']" 2]
    manifest_registered_iff_within_depth[of "example_host (picked [''/plugins'']) None None"
      "\<lparr>canceled = False, filePaths = [''/plugins'']\<rparr>" "[''plugins'']" example_world
      "[''b'', ''x'']" 2]
    manifest_registered_iff_within_depth[of "example_host (picked [''/plugins'', ''/plugins/b/x'']) None None"
      "\<lparr>canceled = False, filePaths = [''/plugins'', ''/plugins/b/x'']\<rparr>" "[''plugins'']" example_world
      "[''b'', ''x'']" 1]
    manifest_registered_iff_within_depth[of "example_host (picked [''/plugins/a/manifest.json'']) None None"
      "\<lparr>canceled = False, filePaths = [''/plugins/a/manifest.json'']\<rparr>" "[]" example_world
      "[]" "- 1"]
    example_listings_proper[of "picked [''/plugins'']" None None]
    example_listings_proper[of "picked [''/plugins'', ''/plugins/b/x'']" None None]
    example_discovered[of "picked [''/plugins'', ''/plugins/b/x'']" None None]
  by (simp add: example_host_sel example_world_sel picked_def abs_path_def proper_def example_fs
      path_basename_def is_slash_def MANIFEST_FILE_NAME_def reg_paths_def empty_registry_def)

text \<open>
  Against claim C5 as stated: in the spec's scenario, \<open>/plugins\<close> scanned with depth 2,
  the manifest \<open>/plugins/b/x/manifest.json\<close> lies at depth 2, through listed and
  non-hidden directories, and is not registered: the handler returns one added id. And
  \<open>/plugins/a\<close> scanned with depth 0 does not register the manifest at depth 0 in it:
  the handler fails with \<open>ManifestNamingError\<close>.
\<close>

theorem manifest_depth_counterexample:
  "chain (example_host (picked [''/plugins'']) None None) (disk example_world) [''plugins'']
     [''b'', ''x'', ''manifest.json''] \<and>
   fs_stat (example_host (picked [''/plugins'']) None None) (disk example_world)
     ''/plugins/b/x/manifest.json'' = Some False \<and>
   fst (createMultipleNewLocalFileExtensions (example_host (picked [''/plugins'']) None None) 2
          example_world) = Inr \<lparr>result_added = [0], result_existed = []\<rparr> \<and>
   ''/plugins/b/x/manifest.json'' \<notin>
     reg_paths (registry (snd (createMultipleNewLocalFileExtensions
        (example_host (picked [''/plugins'']) None None) 2 example_world))) \<and>
   fst (createMultipleNewLocalFileExtensions (example_host (picked [''/plugins/a'']) None None) 0
          example_world) = Inl ManifestNamingError \<and>
   ''/plugins/a/manifest.json'' \<notin>
     reg_paths (registry (snd (createMultipleNewLocalFileExtensions
        (example_host (picked [''/plugins/a'']) None None) 0 example_world)))"
  by (simp add: createMultipleNewLocalFileExtensions_def picked_def example_host_sel
      example_world_sel example_fs path_defs scan_eval abs_path_def proper_def reg_paths_def reject_def)

section \<open>Claims about \<^verbatim>\<open>writeNewExtensionToDisk\<close>\<close>




text \<open>
  Claim C4, as the code has it. A file whose name fails the allow-list, the shape
  pattern or the sanitisation check makes the handler fail without a prompt, a write or
  any change of the state. The error is \<open>InvalidFileError\<close> naming that file when the
  files before it pass the loop: the name of a file is checked before that file is
  parsed, but after the manifests that precede it have been parsed.
\<close>

theorem invalid_name_aborts:
  assumes "files = pre @ f # post" "name_rejected h (name f)"
  shows "(\<exists>e. writeNewExtensionToDisk h files dirName w = (Inl e, w)) \<and>
         ((\<forall>g \<in> set pre. file_ok h g) \<longrightarrow>
            writeNewExtensionToDisk h files dirName w = (Inl (InvalidFileError (name f)), w))"
proof (intro conjI impI)
  have "f \<in> set files" using assms(1) by simp
  from validateFiles_rejected[OF this assms(2), of 0 None]
  show "\<exists>e. writeNewExtensionToDisk h files dirName w = (Inl e, w)"
    by (auto simp: writeNew_validation_error)
next
  assume "\<forall>g \<in> set pre. file_ok h g"
  then obtain acc' where
    "validateFiles h (pre @ f # post) 0 None = validateFiles h (f # post) (0 + length pre) acc'"
    using validateFiles_prefix[of pre h 0 None] by blast
  with assms have "validateFiles h files 0 None = Inl (InvalidFileError (name f))" by simp
  then show "writeNewExtensionToDisk h files dirName w = (Inl (InvalidFileError (name f)), w)"
    by (rule writeNew_validation_error)
qed


text \<open>
  A rejected name after an accepted file and before a manifest whose content is not
  JSON: the error names the file, the manifest is not parsed.
\<close>

theorem invalid_name_aborts_witness:
  \<open>writeNewExtensionToDisk (example_host None (Some ''/home/user/myplug'') None)
     [code_file, bad_file, manifest_file ''{''] ''myplug'' example_world =
     (Inl (InvalidFileError ''bad name.js''), example_world)\<close>
  using invalid_name_aborts[of "[code_file, bad_file, manifest_file ''{'']" "[code_file]" bad_file
      "[manifest_file ''{'']" "example_host None (Some ''/home/user/myplug'') None"
      "''myplug''" example_world]
  by (simp add: example_names example_file_ok bad_file_def)


text \<open>
  Against claim C4 as stated: the manifest with malformed content comes first, and the
  handler fails with \<open>ManifestParseError\<close>, not with \<open>InvalidFileError\<close> for the rejected
  name that follows.
\<close>

theorem invalid_name_counterexample:
  \<open>fst (writeNewExtensionToDisk (example_host None (Some ''/home/user/myplug'') None)
          [manifest_file ''{'', bad_file] ''myplug'' example_world) = Inl ManifestParseError\<close>
  by (simp add: writeNew_eval)






text \<open>
  Claim C9. Once the save dialog has returned a destination, the last-save-directory
  setting is the parent of the destination whatever the handler does next; in
  particular it is set when the handler then fails with \<open>InvalidDirectoryError\<close>
  (empty base name) or with \<open>DestinationExistsError\<close>, and nothing else has changed
  then.
\<close>

theorem last_save_dir_set_before_checks:
  assumes "\<forall>f \<in> set files. file_ok h f" "\<exists>f \<in> set files. name f = MANIFEST_FILE_NAME"
    and "\<forall>options. dialogs_showSaveDialog h options = Some saveDir" "saveDir \<noteq> []"
  shows "lastSavedPluginDir (app_settings (snd (writeNewExtensionToDisk h files dirName w))) =
           Some (path_parse_dir saveDir) \<and>
         (path_basename saveDir = [] \<longrightarrow>
            writeNewExtensionToDisk h files dirName w =
              (Inl InvalidDirectoryError,
               w\<lparr>app_settings := (app_settings w)\<lparr>lastSavedPluginDir := Some (path_parse_dir saveDir)\<rparr>\<rparr>)) \<and>
         (path_basename saveDir \<noteq> [] \<and> access h (disk w) saveDir \<longrightarrow>
            writeNewExtensionToDisk h files dirName w =
              (Inl DestinationExistsError,
               w\<lparr>app_settings := (app_settings w)\<lparr>lastSavedPluginDir := Some (path_parse_dir saveDir)\<rparr>\<rparr>))"
proof -
  from validateFiles_all_ok[OF assms(1,2)] obtain manifest manifestFile where
    v: "validateFiles h files 0 None = Inr (Some (manifest, manifestFile))" by blast
  show ?thesis using assms(3,4)
    by (simp add: writeNewExtensionToDisk_def Let_def v split: prod.splits)
qed

text \<open>
  The destination \<open>/\<close> has an empty base name; the destination \<open>/plugins/a\<close> exists.
\<close>

theorem last_save_dir_set_before_checks_witness:
  "writeNewExtensionToDisk (example_host None (Some ''/'') None)
     [code_file, manifest_file ''{}''] ''myplug'' example_world =
     (Inl InvalidDirectoryError,
      example_world\<lparr>app_settings :=
        \<lparr>lastSavedPluginDir = Some ''/'', lastExportDir = None, exportDir = None\<rparr>\<rparr>) \<and>
   writeNewExtensionToDisk (example_host None (Some ''/plugins/a'') None)
     [code_file, manifest_file ''{}''] ''myplug'' example_world =
     (Inl DestinationExistsError,
      example_world\<lparr>app_settings :=
        \<lparr>lastSavedPluginDir = Some ''/plugins'', lastExportDir = None, exportDir = None\<rparr>\<rparr>)"
  using last_save_dir_set_before_checks[of "[code_file, manifest_file ''{}'']"
      "example_host None (Some ''/'') None" "''/''" "''myplug''" example_world]
    last_save_dir_set_before_checks[of "[code_file, manifest_file ''{}'']"
      "example_host None (Some ''/plugins/a'') None" "''/plugins/a''" "''myplug''" example_world]
  by (simp add: example_file_ok example_host_sel example_world_sel example_fs path_basename_def
      path_parse_dir_def is_slash_def)
     (simp add: manifest_file_def MANIFEST_FILE_NAME_def)


text \<open>
  The auto-filled name of a manifest that is a JSON object. The manifest of the package
  parses to an object without \<^verbatim>\<open>name\<close>; the handler reaches its write phase (the dialog returns a destination with a non-empty
  base name that does not exist yet, \<^verbatim>\<open>mkPath\<close> succeeds) and the manifest path is not
  registered yet. Then the handler returns the new id, and unless the write of the
  manifest failed (and was logged), the file at the destination holds
  \<^verbatim>\<open>JSON.stringify\<close>, with indentation 2, of the object with \<^verbatim>\<open>name\<close> appended and set
  to the base name of the destination, and loading the manifest of the new id gives
  \<^verbatim>\<open>name\<close> equal to that base name. The file system is assumed to return what was
  written and to keep the other files, no other file of the package is written to the
  manifest's path, and \<^verbatim>\<open>JSON.parse\<close> is assumed to read back what \<^verbatim>\<open>JSON.stringify\<close>
  printed for this object.
\<close>

lemma auto_filled_name_round_trip:
  assumes ok: "\<forall>f \<in> set files. file_ok h f"
    and i: "i < length files" "name (files ! i) = MANIFEST_FILE_NAME"
    and c: "content (files ! i) = Text s" "JSON_parse h s = Some (JObj kvs)"
    and noname: "map_of kvs ''name'' = None"
    and others: "\<forall>j < length files. j \<noteq> i \<longrightarrow>
        path_join [saveDir, name (files ! j)] \<noteq> path_join [saveDir, MANIFEST_FILE_NAME]"
    and dlg: "\<forall>options. dialogs_showSaveDialog h options = Some saveDir"
    and leaf: "path_basename saveDir \<noteq> []"
    and free: "\<not> access h (disk w) saveDir"
    and mk: "fst (mkPath h (disk w) saveDir)"
    and wf: "reg_wf (registry w)"
    and new: "path_join [saveDir, MANIFEST_FILE_NAME] \<notin> reg_paths (registry w)"
    and W1: "\<forall>d p c d'. fs_writeFile h d p (Text c) = (True, d') \<longrightarrow> fs_readFile h d' p = Some c"
    and W2: "\<forall>d p c ok d' q. fs_writeFile h d p c = (ok, d') \<longrightarrow> q \<noteq> p \<longrightarrow>
               fs_readFile h d' q = fs_readFile h d q"
    and rt: "JSON_parse h (JSON_stringify h (JObj (kvs @ [(''name'', JStr (path_basename saveDir))])) 2) =
               Some (JObj (kvs @ [(''name'', JStr (path_basename saveDir))]))"
  shows "fst (writeNewExtensionToDisk h files dirName w) = Inr (Some (nextId (registry w))) \<and>
         (path_join [saveDir, MANIFEST_FILE_NAME] \<notin>
              fst ` set (logged (snd (writeNewExtensionToDisk h files dirName w))) \<longrightarrow>
            fs_readFile h (disk (snd (writeNewExtensionToDisk h files dirName w)))
                (path_join [saveDir, MANIFEST_FILE_NAME]) =
              Some (JSON_stringify h (JObj (kvs @ [(''name'', JStr (path_basename saveDir))])) 2) \<and>
            (\<exists>m. loadExtensionManifest h (snd (writeNewExtensionToDisk h files dirName w))
                    (nextId (registry w)) = Some m \<and>
                 js_get m ''name'' = Some (JStr (path_basename saveDir))))"
proof -
  let ?p = "path_join [saveDir, MANIFEST_FILE_NAME]"
  let ?M = "JObj (kvs @ [(''name'', JStr (path_basename saveDir))])"
  let ?c = "JSON_stringify h ?M 2"
  let ?files' = "files[i := (files ! i)\<lparr>content := Text ?c\<rparr>]"
  let ?w1 = "w\<lparr>app_settings := (app_settings w)\<lparr>lastSavedPluginDir := Some (path_parse_dir saveDir)\<rparr>\<rparr>"
  obtain d2 where mkp: "mkPath h (disk w) saveDir = (True, d2)"
    using mk by (cases "mkPath h (disk w) saveDir") auto
  let ?w3 = "fst (fold (writeOne h saveDir (Some (JStr (path_basename saveDir)))) ?files'
                    (?w1\<lparr>disk := d2\<rparr>, False))"
  from validateFiles_all_ok[OF ok] i obtain m j where
    v: "validateFiles h files 0 None = Inr (Some (m, j))"
    by (metis nth_mem)
  from validateFiles_result[OF v] have j: "j < length files" "name (files ! j) = MANIFEST_FILE_NAME"
    and pj: "\<exists>s. content (files ! j) = Text s \<and> JSON_parse h s = Some m"
    by auto
  have "j = i" using others j by auto
  with pj c have m: "m = JObj kvs" by simp
  have sd: "saveDir \<noteq> []" using leaf by (auto simp: path_basename_def)
  have run: "writeNewExtensionToDisk h files dirName w =
      (Inr (Some (nextId (registry w))), ?w3\<lparr>registry := snd (addPath (registry w) ?p)\<rparr>)"
    using dlg sd leaf free mkp noname new
    by (simp add: writeNewExtensionToDisk_def v m \<open>j = i\<close> Let_def js_set_key_absent addPath_new
        fold_writeOne_no_throw)
  have first: "fst (writeNewExtensionToDisk h files dirName w) = Inr (Some (nextId (registry w)))"
    by (simp add: run)
  have second: "fs_readFile h (disk ?w3) ?p = Some ?c \<and>
      (\<exists>m. loadExtensionManifest h (?w3\<lparr>registry := snd (addPath (registry w) ?p)\<rparr>) (nextId (registry w)) = Some m \<and>
           js_get m ''name'' = Some (JStr (path_basename saveDir)))"
    if nolog: "?p \<notin> fst ` set (logged ?w3)"
  proof -
    have rd: "fs_readFile h (disk ?w3) ?p = Some ?c"
    proof (rule fold_writeOne_read[OF W1 W2 _ _ _ _ _ nolog, of i])
      show "js_template_ok (Some (JStr (path_basename saveDir)))" by simp
      show "i < length ?files'" using i by simp
      show "name (?files' ! i) = MANIFEST_FILE_NAME" using i by simp
      show "content (?files' ! i) = Text ?c" using i by simp
      show "\<forall>j<length ?files'. j \<noteq> i \<longrightarrow> path_join [saveDir, name (?files' ! j)] \<noteq> ?p"
        using others by simp
    qed
    have "loadExtensionManifest h (?w3\<lparr>registry := snd (addPath (registry w) ?p)\<rparr>) (nextId (registry w)) = Some ?M"
      using getPath_new[OF wf new] rd rt by (simp add: loadExtensionManifest_def)
    moreover have "js_get ?M ''name'' = Some (JStr (path_basename saveDir))"
      by (simp only: js_get.simps map_of_append_new[OF noname])
    ultimately show ?thesis using rd by blast
  qed
  show ?thesis using first second by (simp add: run)
qed

text \<open>
  A code file and the manifest \<^verbatim>\<open>{}\<close>, saved to \<open>/home/user/myplug\<close>: the written manifest
  has the name \<open>myplug\<close>.
\<close>

lemma auto_filled_name_round_trip_example:
  \<open>fst (writeNewExtensionToDisk (example_host None (Some ''/home/user/myplug'') None)
          [code_file, manifest_file ''{}''] ''myplug'' example_world) = Inr (Some 0) \<and>
    ex_readFile (disk (snd (writeNewExtensionToDisk (example_host None (Some ''/home/user/myplug'') None)
          [code_file, manifest_file ''{}''] ''myplug'' example_world))) ''/home/user/myplug/manifest.json'' =
      Some text_named \<and>
    (\<exists>m. loadExtensionManifest (example_host None (Some ''/home/user/myplug'') None)
           (snd (writeNewExtensionToDisk (example_host None (Some ''/home/user/myplug'') None)
              [code_file, manifest_file ''{}''] ''myplug'' example_world)) 0 = Some m \<and>
         js_get m ''name'' = Some (JStr ''myplug''))\<close>
proof -
  let ?h = "example_host None (Some ''/home/user/myplug'') None"
  let ?files = "[code_file, manifest_file ''{}'']"
  have nolog: "logged (snd (writeNewExtensionToDisk ?h ?files ''myplug'' example_world)) = []"
    by (simp add: writeNew_eval)
  have paths: "path_join [''/home/user/myplug'', ''code.js''] = ''/home/user/myplug/code.js''"
    "path_join [''/home/user/myplug'', ''manifest.json''] = ''/home/user/myplug/manifest.json''"
    by (simp_all add: path_join_def path_normalize_def normalizeString_def is_slash_def)
  have others: "\<forall>j < length ?files. j \<noteq> 1 \<longrightarrow>
      path_join [''/home/user/myplug'', name (?files ! j)] \<noteq> path_join [''/home/user/myplug'', MANIFEST_FILE_NAME]"
    by (simp add: less_Suc_eq code_file_def MANIFEST_FILE_NAME_def paths)
  have ok: "\<forall>f \<in> set ?files. file_ok ?h f" by (simp add: example_file_ok)
  from auto_filled_name_round_trip[of ?files ?h 1 "''{}''" "[]" "''/home/user/myplug''" example_world "''myplug''",
      OF ok _ _ _ _ _ others _ _ _ _ _ _ example_write_then_read example_write_elsewhere]
  show ?thesis
    by (simp add: nolog manifest_file_sel MANIFEST_FILE_NAME_def example_host_sel example_world_sel
        ex_parse_def ex_stringify_def text_named_def text_build_named_def path_basename_def is_slash_def ex_access_def example_disk_def
        ex_mkPath_def paths empty_registry_def reg_wf_def reg_paths_def)
qed

text \<open>
  A code file and the manifest \<^verbatim>\<open>[]\<close>, saved to \<open>/home/user/myplug\<close>: the whole outcome of
  the handler.
\<close>

lemma array_manifest_run:
  \<open>writeNewExtensionToDisk (example_host None (Some ''/home/user/myplug'') None)
      [code_file, manifest_file ''[]''] ''myplug'' example_world =
    (Inr (Some 0),
     example_world
       \<lparr>disk :=
          \<lparr>nodes = (''/home/user/myplug/manifest.json'', FileNode (Text ''[]'')) #
                    (''/home/user/myplug/code.js'', FileNode (Text ''x'')) #
                    (''/home/user/myplug'', DirNode []) # nodes example_disk,
           attempts = [''/home/user/myplug/code.js'', ''/home/user/myplug/manifest.json'']\<rparr>,
        registry :=
          \<lparr>records = [(0, ''/home/user/myplug/manifest.json'')], nextId = 1, notifications = 1\<rparr>,
        app_settings :=
          \<lparr>lastSavedPluginDir = Some ''/home/user'', lastExportDir = None, exportDir = None\<rparr>\<rparr>)\<close>
  by (simp add: writeNew_eval example_world_def)

text \<open>
  Claim C8 does not hold of the code. The shape test of the handler is
  \<^verbatim>\<open>typeof manifest !== "object" || manifest === null\<close>, with the message
  \<^verbatim>\<open>Manifest must be a JSON object\<close>: it refuses the JSON string \<^verbatim>\<open>"x"\<close> and lets the array
  \<^verbatim>\<open>[]\<close> through. The array has no \<^verbatim>\<open>name\<close>, so the handler assigns the base name of the
  destination to \<^verbatim>\<open>manifest.name\<close> and serialises the manifest, and \<^verbatim>\<open>JSON.stringify\<close> prints
  an array without that property. The package is written and registered under id 0,
  no write fails, the manifest on disk is \<^verbatim>\<open>[]\<close>, and the manifest loaded for id 0 has no
  \<^verbatim>\<open>name\<close>.
\<close>

theorem array_manifest_written_without_name:
  \<open>JSON_parse (example_host None (Some ''/home/user/myplug'') None) ''[]'' = Some (JArr []) \<and>
    fst (writeNewExtensionToDisk (example_host None (Some ''/home/user/myplug'') None)
          [code_file, manifest_file ''[]''] ''myplug'' example_world) = Inr (Some 0) \<and>
    fs_readFile (example_host None (Some ''/home/user/myplug'') None)
        (disk (snd (writeNewExtensionToDisk (example_host None (Some ''/home/user/myplug'') None)
          [code_file, manifest_file ''[]''] ''myplug'' example_world)))
        ''/home/user/myplug/manifest.json'' = Some ''[]'' \<and>
    logged (snd (writeNewExtensionToDisk (example_host None (Some ''/home/user/myplug'') None)
          [code_file, manifest_file ''[]''] ''myplug'' example_world)) = [] \<and>
    loadExtensionManifest (example_host None (Some ''/home/user/myplug'') None)
        (snd (writeNewExtensionToDisk (example_host None (Some ''/home/user/myplug'') None)
          [code_file, manifest_file ''[]''] ''myplug'' example_world)) 0 = Some (JArr []) \<and>
    js_get (JArr []) ''name'' = None \<and>
    fst (writeNewExtensionToDisk (example_host None (Some ''/home/user/myplug'') None)
          [code_file, manifest_file ''"x"''] ''myplug'' example_world) = Inl ManifestShapeError\<close>
proof -
  have shape: \<open>fst (writeNewExtensionToDisk (example_host None (Some ''/home/user/myplug'') None)
          [code_file, manifest_file ''"x"''] ''myplug'' example_world) = Inl ManifestShapeError\<close>
    by (simp add: writeNew_eval)
  show ?thesis
    by (simp add: array_manifest_run shape example_host_sel example_world_sel ex_parse_def
        ex_readFile_def loadExtensionManifest_def getPath_def)
qed


section \<open>Claim about \<^verbatim>\<open>writeFiles\<close>\<close>

text \<open>
  Claim C7. Two files are exported to \<open>/out\<close>, and the first cannot be written. The
  handler shows one message box, whose detail names the failed file and says
  \<open>Remaining files will not be saved.\<close>; it then goes on, calls \<^verbatim>\<open>writeFile\<close> for the
  second file and writes it. The text of the message box contradicts what the loop does.
\<close>

theorem export_failure_message_contradicts_loop:
  \<open>fst (writeFiles (example_host None None (Some [''/out''])) export_batch example_world) = None \<and>
    map box_detail (messageBoxes (snd (writeFiles (example_host None None (Some [''/out'']))
        export_batch example_world))) =
      [''"locked.png" could not be saved. Remaining files will not be saved.''] \<and>
    attempts (disk (snd (writeFiles (example_host None None (Some [''/out'']))
        export_batch example_world))) = [''/out/locked.png'', ''/out/b.png''] \<and>
    map_of (nodes (disk (snd (writeFiles (example_host None None (Some [''/out'']))
        export_batch example_world)))) ''/out/b.png'' = Some (FileNode (Binary [3]))\<close>
  by (simp add: writeFiles_def export_batch_def example_host_sel example_world_sel Let_def
      path_join_def path_normalize_def normalizeString_def path_dirname_def path_basename_def
      is_slash_def example_fs export_failed_box_def)

end
